theory Spec2Isabelle
  imports Complex_Main
begin

section \<open>Data model\<close>

text \<open>
  The matrix is a flat row-major buffer: element \<open>(i, j)\<close> of an \<open>n \<times> n\<close> matrix is
  \<open>a ! (i * n + j)\<close>. The pivot vector is a list of C ints, the right-hand side a list
  of numbers. Indices are natural numbers: a buffer of \<open>n * n\<close> doubles only exists for
  \<open>n\<close> far below the range where \<open>i * n + j\<close> would leave a 32-bit int.

  The routines are written once, over any number type that has the operations the C
  code uses (\<open>0\<close>, \<open>1\<close>, \<open>-\<close>, \<open>*\<close>, \<open>/\<close>, \<open>abs\<close>, \<open>\<le>\<close>). Exact arithmetic is the instance
  at an ordered field (\<open>rat\<close>, \<open>real\<close>); the doubles of the C code, with their rounding,
  overflow, infinities and NaN, are the instance \<open>double_val\<close> below.
\<close>

datatype exit = Zero_Row nat | No_Candidate nat | Zero_Diagonal nat | Success

text \<open>The overloaded int that \<open>lu_factor\<close> returns: the index, or -1 for success.\<close>

fun ret_code :: "exit \<Rightarrow> int" where
  "ret_code (Zero_Row i) = int i"
| "ret_code (No_Candidate j) = int j"
| "ret_code (Zero_Diagonal j) = int j"
| "ret_code Success = - 1"

section \<open>lu_factor (matrix_solver.c)\<close>

text \<open>The inner test of the pre-check: is every entry of row \<open>i\<close> equal to zero?\<close>

definition row_all_zeros :: "'a::zero list \<Rightarrow> nat \<Rightarrow> nat \<Rightarrow> bool" where
  "row_all_zeros a n i = list_all (\<lambda>j. \<not> (a ! (i * n + j) \<noteq> 0)) [0..<n]"

text \<open>The loop \<open>for (k = 0; k < m; k++) q -= a[i*n+k] * a[k*n+j]\<close>.\<close>

definition reduce :: "'a::{minus,times} list \<Rightarrow> nat \<Rightarrow> nat \<Rightarrow> nat \<Rightarrow> nat \<Rightarrow> 'a \<Rightarrow> 'a" where
  "reduce a n i j m q = fold (\<lambda>k q. q - a ! (i * n + k) * a ! (k * n + j)) [0..<m] q"

text \<open>Upper triangular elements of column \<open>j\<close>: rows \<open>i < j\<close>.\<close>

definition upper_part :: "'a::{minus,times} list \<Rightarrow> nat \<Rightarrow> nat \<Rightarrow> 'a list" where
  "upper_part a n j =
     fold (\<lambda>i a. a[i * n + j := reduce a n i j i (a ! (i * n + j))]) [0..<j] a"

text \<open>
  Lower triangular elements of column \<open>j\<close>: rows \<open>i \<ge> j\<close>, with the pivot search.
  The state is the matrix, \<open>largest\<close> and \<open>largestRow\<close>.
\<close>

definition lower_step ::
  "nat \<Rightarrow> nat \<Rightarrow> nat \<Rightarrow> 'a::{minus,times,abs,ord} list \<times> 'a \<times> int \<Rightarrow> 'a list \<times> 'a \<times> int" where
  "lower_step n j i s =
     (case s of (a, largest, largestRow) \<Rightarrow>
        let q = reduce a n i j j (a ! (i * n + j));
            a' = a[i * n + j := q];
            x = abs q
        in if x \<ge> largest then (a', x, int i) else (a', largest, largestRow))"

definition lower_part ::
  "'a::{zero,minus,times,abs,ord} list \<Rightarrow> nat \<Rightarrow> nat \<Rightarrow> 'a list \<times> 'a \<times> int" where
  "lower_part a n j = fold (lower_step n j) [j..<n] (a, 0, - 1)"

text \<open>The exchange of rows \<open>j\<close> and \<open>largestRow\<close>, element by element.\<close>

definition swap_rows :: "'a list \<Rightarrow> nat \<Rightarrow> nat \<Rightarrow> nat \<Rightarrow> 'a list" where
  "swap_rows a n largestRow j =
     fold (\<lambda>k a. let x = a ! (largestRow * n + k);
                      a1 = a[largestRow * n + k := a ! (j * n + k)]
                  in a1[j * n + k := x]) [0..<n] a"

text \<open>Scaling of the column below the diagonal by \<open>1.0 / a[j*n+j]\<close>.\<close>

definition scale_column :: "'a::{one,times,inverse} list \<Rightarrow> nat \<Rightarrow> nat \<Rightarrow> 'a list" where
  "scale_column a n j =
     (let mult = 1 / a ! (j * n + j)
      in fold (\<lambda>i a. a[i * n + j := a ! (i * n + j) * mult]) [j + 1..<n] a)"

text \<open>
  One pass of the column loop. \<open>Inl\<close> is a \<open>return j\<close> inside the loop, with the buffers
  as they are at that moment; \<open>Inr\<close> is the end of the loop body.
\<close>

definition after_pivot ::
  "nat \<Rightarrow> nat \<Rightarrow> 'a::{zero,one,times,inverse} list \<Rightarrow> int \<Rightarrow> int list
     \<Rightarrow> (exit \<times> 'a list \<times> int list) + ('a list \<times> int list)" where
  "after_pivot n j a largestRow ipvt =
     (let ipvt' = ipvt[j := largestRow]
      in if a ! (j * n + j) = 0 then Inl (Zero_Diagonal j, a, ipvt')
         else Inr (if int j \<noteq> int n - 1 then scale_column a n j else a, ipvt'))"

definition lu_column ::
  "nat \<Rightarrow> nat \<Rightarrow> 'a::{zero,one,minus,times,inverse,abs,ord} list \<Rightarrow> int list
     \<Rightarrow> (exit \<times> 'a list \<times> int list) + ('a list \<times> int list)" where
  "lu_column n j a ipvt =
     (case lower_part (upper_part a n j) n j of (a2, largest, largestRow) \<Rightarrow>
        if int j \<noteq> largestRow then
          if largestRow = - 1 then Inl (No_Candidate j, a2, ipvt)
          else after_pivot n j (swap_rows a2 n (nat largestRow) j) largestRow ipvt
        else after_pivot n j a2 largestRow ipvt)"

fun lu_columns ::
  "nat \<Rightarrow> nat list \<Rightarrow> 'a::{zero,one,minus,times,inverse,abs,ord} list \<Rightarrow> int list
     \<Rightarrow> exit \<times> 'a list \<times> int list" where
  "lu_columns n [] a ipvt = (Success, a, ipvt)"
| "lu_columns n (j # js) a ipvt =
     (case lu_column n j a ipvt of
        Inl r \<Rightarrow> r
      | Inr (a', ipvt') \<Rightarrow> lu_columns n js a' ipvt')"

text \<open>
  \<open>lu_factor_exit\<close> is the whole function, telling which \<open>return\<close> statement ended it;
  \<open>lu_factor\<close> gives the int the C function returns, with the final buffers.
\<close>

definition lu_factor_exit ::
  "'a::{zero,one,minus,times,inverse,abs,ord} list \<Rightarrow> nat \<Rightarrow> int list
     \<Rightarrow> exit \<times> 'a list \<times> int list" where
  "lu_factor_exit a n ipvt =
     (case find (row_all_zeros a n) [0..<n] of
        Some i \<Rightarrow> (Zero_Row i, a, ipvt)
      | None \<Rightarrow> lu_columns n [0..<n] a ipvt)"

definition lu_factor ::
  "'a::{zero,one,minus,times,inverse,abs,ord} list \<Rightarrow> nat \<Rightarrow> int list
     \<Rightarrow> int \<times> 'a list \<times> int list" where
  "lu_factor a n ipvt =
     (case lu_factor_exit a n ipvt of (e, a', ipvt') \<Rightarrow> (ret_code e, a', ipvt'))"

section \<open>lu_solve (matrix_solver.c)\<close>

text \<open>
  The first loop: exchange \<open>b[i]\<close> and \<open>b[ipvt[i]]\<close> until a swapped-in value is nonzero.
  The result is the value of \<open>i\<close> after the loop, \<open>bi\<close>, and \<open>b\<close>.
\<close>

function perm_scan :: "int list \<Rightarrow> nat \<Rightarrow> nat \<Rightarrow> 'a::zero list \<Rightarrow> nat \<times> nat \<times> 'a list" where
  "perm_scan ipvt n i b =
     (if i < n then
        let row = nat (ipvt ! i);
            swap = b ! row;
            b1 = b[row := b ! i];
            b2 = b1[i := swap]
        in if swap \<noteq> 0 then (i + 1, i, b2) else perm_scan ipvt n (i + 1) b2
      else (i, 0, b))"
  by pat_completeness auto
termination
  by (relation "measure (\<lambda>(ipvt, n, i, b). n - i)") auto

declare perm_scan.simps [simp del]

text \<open>Forward substitution, one row: the exchange, then the sum over \<open>[bi, i)\<close>.\<close>

definition forward_step ::
  "'a::{minus,times} list \<Rightarrow> nat \<Rightarrow> int list \<Rightarrow> nat \<Rightarrow> nat \<Rightarrow> 'a list \<Rightarrow> 'a list" where
  "forward_step a n ipvt bi i b =
     (let row = nat (ipvt ! i);
          tot = b ! row;
          b1 = b[row := b ! i];
          tot' = fold (\<lambda>j tot. tot - a ! (i * n + j) * b1 ! j) [bi..<i] tot
      in b1[i := tot'])"

definition forward_subst ::
  "'a::{minus,times} list \<Rightarrow> nat \<Rightarrow> int list \<Rightarrow> nat \<Rightarrow> nat \<Rightarrow> 'a list \<Rightarrow> 'a list" where
  "forward_subst a n ipvt bi i0 b = fold (forward_step a n ipvt bi) [i0..<n] b"

text \<open>Back substitution, \<open>i\<close> from \<open>n - 1\<close> down to \<open>0\<close>.\<close>

definition back_step :: "'a::{minus,times,inverse} list \<Rightarrow> nat \<Rightarrow> nat \<Rightarrow> 'a list \<Rightarrow> 'a list" where
  "back_step a n i b =
     (let tot = fold (\<lambda>j tot. tot - a ! (i * n + j) * b ! j) [i + 1..<n] (b ! i)
      in b[i := tot / a ! (i * n + i)])"

definition back_subst :: "'a::{minus,times,inverse} list \<Rightarrow> nat \<Rightarrow> 'a list \<Rightarrow> 'a list" where
  "back_subst a n b = fold (back_step a n) (rev [0..<n]) b"

definition lu_solve ::
  "'a::{zero,minus,times,inverse} list \<Rightarrow> nat \<Rightarrow> int list \<Rightarrow> 'a list \<Rightarrow> 'a list" where
  "lu_solve a n ipvt b =
     (case perm_scan ipvt n 0 b of (i, bi, b1) \<Rightarrow>
        back_subst a n (forward_subst a n ipvt bi i b1))"

text \<open>
  The permutation and forward substitution as the specification words them: for each
  \<open>i\<close> from \<open>0\<close> to \<open>n - 1\<close> one exchange of \<open>b[i]\<close> and \<open>b[ipvt[i]]\<close>, followed, from the row
  \<open>i0\<close> at which the scan stopped, by the subtraction of the sum over \<open>[bi, i)\<close>.
\<close>

definition exchange :: "int list \<Rightarrow> nat \<Rightarrow> 'a list \<Rightarrow> 'a list" where
  "exchange ipvt i b = (let row = nat (ipvt ! i); swap = b ! row in (b[row := b ! i])[i := swap])"

definition subtract_row :: "'a::{minus,times} list \<Rightarrow> nat \<Rightarrow> nat \<Rightarrow> nat \<Rightarrow> 'a list \<Rightarrow> 'a list" where
  "subtract_row a n bi i b =
     b[i := fold (\<lambda>j tot. tot - a ! (i * n + j) * b ! j) [bi..<i] (b ! i)]"

definition forward_spec ::
  "'a::{minus,times} list \<Rightarrow> nat \<Rightarrow> int list \<Rightarrow> nat \<Rightarrow> nat \<Rightarrow> 'a list \<Rightarrow> 'a list" where
  "forward_spec a n ipvt bi i0 b =
     fold (\<lambda>i b. if i0 \<le> i then subtract_row a n bi i (exchange ipvt i b)
                  else exchange ipvt i b) [0..<n] b"

section \<open>The SIMD build (matrix_solver_simd.c)\<close>

text \<open>
  A \<open>v128_t\<close> used as two double lanes is a pair. Loads and stores take the buffer and
  the index the pointer refers to.
\<close>

type_synonym 'a v128 = "'a \<times> 'a"

definition wasm_f64x2_splat :: "'a \<Rightarrow> 'a v128" where
  "wasm_f64x2_splat x = (x, x)"

definition wasm_f64x2_make :: "'a \<Rightarrow> 'a \<Rightarrow> 'a v128" where
  "wasm_f64x2_make x y = (x, y)"

definition wasm_f64x2_mul :: "'a::times v128 \<Rightarrow> 'a v128 \<Rightarrow> 'a v128" where
  "wasm_f64x2_mul v w = (fst v * fst w, snd v * snd w)"

definition wasm_f64x2_add :: "'a::plus v128 \<Rightarrow> 'a v128 \<Rightarrow> 'a v128" where
  "wasm_f64x2_add v w = (fst v + fst w, snd v + snd w)"

definition wasm_f64x2_extract_lane :: "'a v128 \<Rightarrow> nat \<Rightarrow> 'a" where
  "wasm_f64x2_extract_lane v l = (if l = 0 then fst v else snd v)"

definition wasm_v128_load :: "'a list \<Rightarrow> nat \<Rightarrow> 'a v128" where
  "wasm_v128_load xs i = (xs ! i, xs ! (i + 1))"

definition wasm_v128_store :: "'a list \<Rightarrow> nat \<Rightarrow> 'a v128 \<Rightarrow> 'a list" where
  "wasm_v128_store xs i v = (xs[i := fst v])[i + 1 := snd v]"

text \<open>\<open>swap_rows_simd(row1, row2, n)\<close>; \<open>row1\<close> and \<open>row2\<close> are offsets into the buffer.\<close>

function swap_pairs :: "'a list \<Rightarrow> nat \<Rightarrow> nat \<Rightarrow> nat \<Rightarrow> nat \<Rightarrow> nat \<times> 'a list" where
  "swap_pairs a row1 row2 n i =
     (if i + 1 < n then
        let v1 = wasm_v128_load a (row1 + i);
            v2 = wasm_v128_load a (row2 + i);
            a1 = wasm_v128_store a (row1 + i) v2;
            a2 = wasm_v128_store a1 (row2 + i) v1
        in swap_pairs a2 row1 row2 n (i + 2)
      else (i, a))"
  by pat_completeness auto
termination
  by (relation "measure (\<lambda>(a, row1, row2, n, i). n - i)") auto

declare swap_pairs.simps [simp del]

definition swap_rows_simd :: "'a list \<Rightarrow> nat \<Rightarrow> nat \<Rightarrow> nat \<Rightarrow> 'a list" where
  "swap_rows_simd a row1 row2 n =
     (case swap_pairs a row1 row2 n 0 of (i, a1) \<Rightarrow>
        if i < n then
          let temp = a1 ! (row1 + i);
              a2 = a1[row1 + i := a1 ! (row2 + i)]
          in a2[row2 + i := temp]
        else a1)"

text \<open>The paired accumulation of the lower part, \<open>for (; k2 + 1 < j; k2 += 2)\<close>.\<close>

function lower_pairs ::
  "'a::{plus,times} list \<Rightarrow> nat \<Rightarrow> nat \<Rightarrow> nat \<Rightarrow> nat \<Rightarrow> 'a v128 \<Rightarrow> nat \<times> 'a v128" where
  "lower_pairs a n i j k2 vsum =
     (if k2 + 1 < j then
        let a_ik0 = a ! (i * n + k2);
            a_ik1 = a ! (i * n + k2 + 1);
            a_kj0 = a ! (k2 * n + j);
            a_kj1 = a ! ((k2 + 1) * n + j);
            va = wasm_f64x2_make a_ik0 a_ik1;
            vb = wasm_f64x2_make a_kj0 a_kj1;
            prod = wasm_f64x2_mul va vb
        in lower_pairs a n i j (k2 + 2) (wasm_f64x2_add vsum prod)
      else (k2, vsum))"
  by pat_completeness auto
termination
  by (relation "measure (\<lambda>(a, n, i, j, k2, vsum). j - k2)") auto

declare lower_pairs.simps [simp del]

definition reduce_simd ::
  "'a::{zero,plus,minus,times} list \<Rightarrow> nat \<Rightarrow> nat \<Rightarrow> nat \<Rightarrow> 'a \<Rightarrow> 'a" where
  "reduce_simd a n i j q =
     (if j > 1 then
        case lower_pairs a n i j 0 (wasm_f64x2_splat 0) of (k2, vsum) \<Rightarrow>
          let q1 = q - (wasm_f64x2_extract_lane vsum 0 + wasm_f64x2_extract_lane vsum 1)
          in fold (\<lambda>k2 q. q - a ! (i * n + k2) * a ! (k2 * n + j)) [k2..<j] q1
      else fold (\<lambda>k q. q - a ! (i * n + k) * a ! (k * n + j)) [0..<j] q)"

definition upper_part_simd :: "'a::{minus,times} list \<Rightarrow> nat \<Rightarrow> nat \<Rightarrow> 'a list" where
  "upper_part_simd a n j =
     fold (\<lambda>i a. let q = a ! (i * n + j);
                      q' = (if i > 0
                            then fold (\<lambda>k q. q - a ! (i * n + k) * a ! (k * n + j)) [0..<i] q
                            else q)
                  in a[i * n + j := q']) [0..<j] a"

definition lower_step_simd ::
  "nat \<Rightarrow> nat \<Rightarrow> nat \<Rightarrow> 'a::{zero,plus,minus,times,abs,ord} list \<times> 'a \<times> int
     \<Rightarrow> 'a list \<times> 'a \<times> int" where
  "lower_step_simd n j i s =
     (case s of (a, largest, largestRow) \<Rightarrow>
        let q = reduce_simd a n i j (a ! (i * n + j));
            a' = a[i * n + j := q];
            x = abs q
        in if x \<ge> largest then (a', x, int i) else (a', largest, largestRow))"

definition lower_part_simd ::
  "'a::{zero,plus,minus,times,abs,ord} list \<Rightarrow> nat \<Rightarrow> nat \<Rightarrow> 'a list \<times> 'a \<times> int" where
  "lower_part_simd a n j = fold (lower_step_simd n j) [j..<n] (a, 0, - 1)"

definition lu_column_simd ::
  "nat \<Rightarrow> nat \<Rightarrow> 'a::{zero,one,plus,minus,times,inverse,abs,ord} list \<Rightarrow> int list
     \<Rightarrow> (exit \<times> 'a list \<times> int list) + ('a list \<times> int list)" where
  "lu_column_simd n j a ipvt =
     (case lower_part_simd (upper_part_simd a n j) n j of (a2, largest, largestRow) \<Rightarrow>
        if int j \<noteq> largestRow then
          if largestRow = - 1 then Inl (No_Candidate j, a2, ipvt)
          else after_pivot n j (swap_rows_simd a2 (nat largestRow * n) (j * n) n) largestRow ipvt
        else after_pivot n j a2 largestRow ipvt)"

fun lu_columns_simd ::
  "nat \<Rightarrow> nat list \<Rightarrow> 'a::{zero,one,plus,minus,times,inverse,abs,ord} list \<Rightarrow> int list
     \<Rightarrow> exit \<times> 'a list \<times> int list" where
  "lu_columns_simd n [] a ipvt = (Success, a, ipvt)"
| "lu_columns_simd n (j # js) a ipvt =
     (case lu_column_simd n j a ipvt of
        Inl r \<Rightarrow> r
      | Inr (a', ipvt') \<Rightarrow> lu_columns_simd n js a' ipvt')"

definition lu_factor_exit_simd ::
  "'a::{zero,one,plus,minus,times,inverse,abs,ord} list \<Rightarrow> nat \<Rightarrow> int list
     \<Rightarrow> exit \<times> 'a list \<times> int list" where
  "lu_factor_exit_simd a n ipvt =
     (case find (row_all_zeros a n) [0..<n] of
        Some i \<Rightarrow> (Zero_Row i, a, ipvt)
      | None \<Rightarrow> lu_columns_simd n [0..<n] a ipvt)"

definition lu_factor_simd ::
  "'a::{zero,one,plus,minus,times,inverse,abs,ord} list \<Rightarrow> nat \<Rightarrow> int list
     \<Rightarrow> int \<times> 'a list \<times> int list" where
  "lu_factor_simd a n ipvt =
     (case lu_factor_exit_simd a n ipvt of (e, a', ipvt') \<Rightarrow> (ret_code e, a', ipvt'))"

text \<open>
  The paired accumulation of both substitution loops of the SIMD \<open>lu_solve\<close>,
  \<open>for (; jj + 1 < hi; jj += 2)\<close> with \<open>hi = i\<close> (forward) and \<open>hi = n\<close> (back).
\<close>

function row_pairs ::
  "'a::{plus,times} list \<Rightarrow> nat \<Rightarrow> nat \<Rightarrow> 'a list \<Rightarrow> nat \<Rightarrow> nat \<Rightarrow> 'a v128 \<Rightarrow> nat \<times> 'a v128" where
  "row_pairs a n i b hi jj vsum =
     (if jj + 1 < hi then
        let va = wasm_f64x2_make (a ! (i * n + jj)) (a ! (i * n + jj + 1));
            vb = wasm_v128_load b jj;
            prod = wasm_f64x2_mul va vb
        in row_pairs a n i b hi (jj + 2) (wasm_f64x2_add vsum prod)
      else (jj, vsum))"
  by pat_completeness auto
termination
  by (relation "measure (\<lambda>(a, n, i, b, hi, jj, vsum). hi - jj)") auto

declare row_pairs.simps [simp del]

definition row_sum_simd ::
  "'a::{zero,plus,minus,times} list \<Rightarrow> nat \<Rightarrow> nat \<Rightarrow> 'a list \<Rightarrow> nat \<Rightarrow> nat \<Rightarrow> 'a \<Rightarrow> 'a" where
  "row_sum_simd a n i b lo hi tot =
     (case row_pairs a n i b hi lo (wasm_f64x2_splat 0) of (jj, vsum) \<Rightarrow>
        let tot1 = tot - (wasm_f64x2_extract_lane vsum 0 + wasm_f64x2_extract_lane vsum 1)
        in fold (\<lambda>jj tot. tot - a ! (i * n + jj) * b ! jj) [jj..<hi] tot1)"

definition forward_step_simd ::
  "'a::{zero,plus,minus,times} list \<Rightarrow> nat \<Rightarrow> int list \<Rightarrow> nat \<Rightarrow> nat \<Rightarrow> 'a list \<Rightarrow> 'a list" where
  "forward_step_simd a n ipvt bi i b =
     (let row = nat (ipvt ! i);
          tot = b ! row;
          b1 = b[row := b ! i];
          len = int i - int bi;
          tot' = (if len \<ge> 2 then row_sum_simd a n i b1 bi i tot
                  else fold (\<lambda>j tot. tot - a ! (i * n + j) * b1 ! j) [bi..<i] tot)
      in b1[i := tot'])"

definition back_step_simd ::
  "'a::{zero,plus,minus,times,inverse} list \<Rightarrow> nat \<Rightarrow> nat \<Rightarrow> 'a list \<Rightarrow> 'a list" where
  "back_step_simd a n i b =
     (let tot = b ! i;
          len = int n - 1 - int i;
          tot' = (if len \<ge> 2 then row_sum_simd a n i b (i + 1) n tot
                  else fold (\<lambda>j tot. tot - a ! (i * n + j) * b ! j) [i + 1..<n] tot)
      in b[i := tot' / a ! (i * n + i)])"

definition lu_solve_simd ::
  "'a::{zero,plus,minus,times,inverse} list \<Rightarrow> nat \<Rightarrow> int list \<Rightarrow> 'a list \<Rightarrow> 'a list" where
  "lu_solve_simd a n ipvt b =
     (case perm_scan ipvt n 0 b of (i, bi, b1) \<Rightarrow>
        fold (back_step_simd a n) (rev [0..<n])
          (fold (forward_step_simd a n ipvt bi) [i..<n] b1))"

section \<open>The doubles of the C code\<close>

text \<open>
  A double is a finite number, an infinity or NaN (IEEE 754 binary64, the arithmetic of
  WebAssembly's \<open>f64\<close>). The exact result of an operation on finite numbers is rounded to
  the nearest representable number, ties to even: a significand of 53 bits for normal
  numbers, multiples of \<open>2\<^sup>-\<^sup>1\<^sup>0\<^sup>7\<^sup>4\<close> below \<open>2\<^sup>-\<^sup>1\<^sup>0\<^sup>2\<^sup>2\<close> (subnormal numbers, underflow to
  zero), and an infinity when the rounded magnitude reaches \<open>2\<^sup>1\<^sup>0\<^sup>2\<^sup>4\<close> (overflow). The
  operations on infinities and NaN are those of IEEE 754: \<open>\<infinity> - \<infinity>\<close> and \<open>0 * \<infinity>\<close> are NaN,
  \<open>x / \<infinity>\<close> is zero, every operation on NaN is NaN, and every ordered comparison with NaN
  is false.

  The model has one zero: \<open>-0.0\<close> and \<open>+0.0\<close> are the same value \<open>Fin 0\<close>. The two compare
  equal in C, \<open>fabs\<close> maps both to \<open>+0.0\<close>, and sums, differences and products with
  either of them differ at most in the sign of a zero result; only a division by a zero
  tells them apart, and there the model takes the divisor as \<open>+0.0\<close>. \<open>lu_factor\<close> never
  divides by a zero (it returns when the diagonal entry is zero). Equality of this type
  agrees with C's \<open>==\<close> and \<open>!=\<close> whenever one side is \<open>0.0\<close>, which is the only way the
  solver compares for equality.
\<close>

datatype double_val = Fin rat | PInf | NInf | NaN

function bit_length :: "int \<Rightarrow> int" where
  "bit_length k = (if k \<le> 0 then 0 else 1 + bit_length (k div 2))"
  by pat_completeness auto
termination
  by (relation "measure nat") auto

declare bit_length.simps [simp del]

text \<open>The powers of two: \<open>pow2i e\<close> is \<open>2\<^sup>e\<close> for \<open>e \<ge> 0\<close>, and \<open>pow2 e\<close> is \<open>2\<^sup>e\<close> for every \<open>e\<close>.\<close>

function pow2i :: "int \<Rightarrow> int" where
  "pow2i e = (if e \<le> 0 then 1 else 2 * pow2i (e - 1))"
  by pat_completeness auto
termination
  by (relation "measure nat") auto

declare pow2i.simps [simp del]

definition pow2 :: "int \<Rightarrow> rat" where
  "pow2 e = (if e \<ge> 0 then of_int (pow2i e) else 1 / of_int (pow2i (- e)))"

text \<open>The binary exponent of \<open>x \<noteq> 0\<close>: the \<open>e\<close> with \<open>2\<^sup>e \<le> |x| < 2\<^sup>e\<^sup>+\<^sup>1\<close>.\<close>

definition binary_exponent :: "rat \<Rightarrow> int" where
  "binary_exponent x =
     (case quotient_of (abs x) of (p, q) \<Rightarrow>
        let e0 = bit_length p - bit_length q
        in if pow2 e0 \<le> abs x then e0 else e0 - 1)"

definition round_half_even :: "rat \<Rightarrow> int" where
  "round_half_even m =
     (let f = \<lfloor>m\<rfloor>; d = m - of_int f
      in if d < 1 / 2 then f else if d > 1 / 2 then f + 1 else if even f then f else f + 1)"

text \<open>
  Rounding of an exact result to a double. The unit in the last place is
  \<open>2\<^sup>e\<^sup>-\<^sup>5\<^sup>2\<close> for the binary exponent \<open>e\<close> of \<open>x\<close>, and \<open>2\<^sup>-\<^sup>1\<^sup>0\<^sup>7\<^sup>4\<close> when \<open>e < -1022\<close>.
\<close>

definition round_double :: "rat \<Rightarrow> double_val" where
  "round_double x =
     (if x = 0 then Fin 0
      else let e = max (binary_exponent x) (- 1022);
               ulp = pow2 (e - 52);
               r = of_int (round_half_even (x / ulp)) * ulp
           in if abs r \<ge> pow2 1024 then (if x > 0 then PInf else NInf) else Fin r)"

fun dv_neg :: "double_val \<Rightarrow> double_val" where
  "dv_neg (Fin x) = Fin (- x)"
| "dv_neg PInf = NInf"
| "dv_neg NInf = PInf"
| "dv_neg NaN = NaN"

fun dv_add :: "double_val \<Rightarrow> double_val \<Rightarrow> double_val" where
  "dv_add NaN _ = NaN"
| "dv_add _ NaN = NaN"
| "dv_add (Fin x) (Fin y) = round_double (x + y)"
| "dv_add (Fin x) y = y"
| "dv_add x (Fin y) = x"
| "dv_add PInf PInf = PInf"
| "dv_add NInf NInf = NInf"
| "dv_add PInf NInf = NaN"
| "dv_add NInf PInf = NaN"

fun dv_sign :: "double_val \<Rightarrow> int" where
  "dv_sign (Fin x) = (if x < 0 then - 1 else if x = 0 then 0 else 1)"
| "dv_sign PInf = 1"
| "dv_sign NInf = - 1"
| "dv_sign NaN = 0"

fun dv_mul :: "double_val \<Rightarrow> double_val \<Rightarrow> double_val" where
  "dv_mul NaN _ = NaN"
| "dv_mul _ NaN = NaN"
| "dv_mul (Fin x) (Fin y) = round_double (x * y)"
| "dv_mul x y =
     (let s = dv_sign x * dv_sign y
      in if s = 0 then NaN else if s > 0 then PInf else NInf)"

fun dv_div :: "double_val \<Rightarrow> double_val \<Rightarrow> double_val" where
  "dv_div NaN _ = NaN"
| "dv_div _ NaN = NaN"
| "dv_div (Fin x) (Fin y) =
     (if y = 0 then (if x = 0 then NaN else if x > 0 then PInf else NInf)
      else round_double (x / y))"
| "dv_div (Fin x) y = Fin 0"
| "dv_div x (Fin y) = (if y < 0 then dv_neg x else x)"
| "dv_div x y = NaN"

fun dv_abs :: "double_val \<Rightarrow> double_val" where
  "dv_abs (Fin x) = Fin (abs x)"
| "dv_abs PInf = PInf"
| "dv_abs NInf = PInf"
| "dv_abs NaN = NaN"

fun dv_le :: "double_val \<Rightarrow> double_val \<Rightarrow> bool" where
  "dv_le NaN _ = False"
| "dv_le _ NaN = False"
| "dv_le (Fin x) (Fin y) = (x \<le> y)"
| "dv_le NInf _ = True"
| "dv_le _ PInf = True"
| "dv_le _ _ = False"

instantiation double_val :: "{zero,one,plus,minus,times,inverse,abs,ord}"
begin

definition zero_double_val :: double_val where
  "zero_double_val = Fin 0"

definition one_double_val :: double_val where
  "one_double_val = Fin 1"

definition plus_double_val :: "double_val \<Rightarrow> double_val \<Rightarrow> double_val" where
  "plus_double_val x y = dv_add x y"

definition minus_double_val :: "double_val \<Rightarrow> double_val \<Rightarrow> double_val" where
  "minus_double_val x y = dv_add x (dv_neg y)"

definition times_double_val :: "double_val \<Rightarrow> double_val \<Rightarrow> double_val" where
  "times_double_val x y = dv_mul x y"

definition divide_double_val :: "double_val \<Rightarrow> double_val \<Rightarrow> double_val" where
  "divide_double_val x y = dv_div x y"

definition inverse_double_val :: "double_val \<Rightarrow> double_val" where
  "inverse_double_val x = dv_div (Fin 1) x"

definition abs_double_val :: "double_val \<Rightarrow> double_val" where
  "abs_double_val x = dv_abs x"

definition less_eq_double_val :: "double_val \<Rightarrow> double_val \<Rightarrow> bool" where
  "less_eq_double_val x y = dv_le x y"

definition less_double_val :: "double_val \<Rightarrow> double_val \<Rightarrow> bool" where
  "less_double_val x y = (dv_le x y \<and> x \<noteq> y)"

instance ..

end

section \<open>Loop invariants\<close>

text \<open>
  The predicates below describe the matrix after \<open>m\<close> passes of a loop, entry by entry.
  \<open>cand a n j r\<close> is the post-reduction value of row \<open>r\<close> in column \<open>j\<close>, computed from
  the matrix \<open>a\<close> as it is when the lower part of column \<open>j\<close> starts.
\<close>

definition upper_inv :: "'a::{minus,times} list \<Rightarrow> nat \<Rightarrow> nat \<Rightarrow> nat \<Rightarrow> 'a list \<Rightarrow> bool" where
  "upper_inv a n j m a' \<longleftrightarrow>
     length a' = length a \<and>
     (\<forall>r<n. \<forall>c<n. (c \<noteq> j \<or> m \<le> r) \<longrightarrow> a' ! (r * n + c) = a ! (r * n + c)) \<and>
     (\<forall>r<m. a' ! (r * n + j) = reduce a' n r j r (a ! (r * n + j)))"

definition cand :: "'a::{minus,times} list \<Rightarrow> nat \<Rightarrow> nat \<Rightarrow> nat \<Rightarrow> 'a" where
  "cand a n j r = reduce a n r j j (a ! (r * n + j))"

definition lower_inv ::
  "'a::{minus,times} list \<Rightarrow> nat \<Rightarrow> nat \<Rightarrow> nat \<Rightarrow> 'a list \<times> 'a \<times> int \<Rightarrow> bool" where
  "lower_inv a n j m s \<longleftrightarrow>
     (case s of (a', largest, largestRow) \<Rightarrow>
        length a' = length a \<and>
        (\<forall>r<n. \<forall>c<n. (c \<noteq> j \<or> r < j \<or> m \<le> r) \<longrightarrow> a' ! (r * n + c) = a ! (r * n + c)) \<and>
        (\<forall>r. j \<le> r \<and> r < m \<longrightarrow> a' ! (r * n + j) = cand a n j r) \<and>
        (largestRow = - 1 \<or> (int j \<le> largestRow \<and> largestRow < int m)))"

definition pivot_inv ::
  "'a::{zero,minus,times,abs,ord} list \<Rightarrow> nat \<Rightarrow> nat \<Rightarrow> nat \<Rightarrow> 'a list \<times> 'a \<times> int \<Rightarrow> bool" where
  "pivot_inv a n j m s \<longleftrightarrow>
     (case s of (a', largest, largestRow) \<Rightarrow>
        (m = j \<longrightarrow> largest = 0 \<and> largestRow = - 1) \<and>
        (j < m \<longrightarrow>
           int j \<le> largestRow \<and> largestRow < int m \<and>
           largest = abs (cand a n j (nat largestRow)) \<and>
           (\<forall>r. j \<le> r \<and> r < m \<longrightarrow> abs (cand a n j r) \<le> largest) \<and>
           (\<forall>r. nat largestRow < r \<and> r < m \<longrightarrow> abs (cand a n j r) < largest)))"

text \<open>
  The invariant of the column loop. \<open>B\<close> is the input matrix with the row exchanges made
  so far; after \<open>m\<close> columns, the first \<open>m\<close> columns of \<open>a\<close> hold the factors of \<open>B\<close> (unit
  lower triangle below the diagonal, upper triangle on and above it) and the other
  columns are those of \<open>B\<close>.
\<close>

definition lu_inv :: "'a::field list \<Rightarrow> nat \<Rightarrow> nat \<Rightarrow> 'a list \<Rightarrow> bool" where
  "lu_inv B n m a \<longleftrightarrow>
     length a = n * n \<and> length B = n * n \<and>
     (\<forall>i<n. \<forall>c<n. m \<le> c \<longrightarrow> a ! (i * n + c) = B ! (i * n + c)) \<and>
     (\<forall>i<n. \<forall>c<m. i \<le> c \<longrightarrow>
        B ! (i * n + c) = a ! (i * n + c) + (\<Sum>k<i. a ! (i * n + k) * a ! (k * n + c))) \<and>
     (\<forall>i<n. \<forall>c<m. c < i \<longrightarrow>
        B ! (i * n + c) =
          a ! (i * n + c) * a ! (c * n + c) + (\<Sum>k<c. a ! (i * n + k) * a ! (k * n + c))) \<and>
     (\<forall>c<m. a ! (c * n + c) \<noteq> 0)"

text \<open>The row exchanges that \<open>ipvt\<close> records for the columns \<open>[lo, hi)\<close>, applied to \<open>B\<close>.\<close>

definition permute_rows :: "'a list \<Rightarrow> nat \<Rightarrow> int list \<Rightarrow> nat \<Rightarrow> nat \<Rightarrow> 'a list" where
  "permute_rows B n ipvt lo hi = fold (\<lambda>k B. swap_rows B n (nat (ipvt ! k)) k) [lo..<hi] B"

text \<open>
  A matrix is singular when its rows are linearly dependent: some combination of the
  rows with coefficients \<open>y\<close>, not all zero, is the zero row. Two identical rows are the
  case \<open>y = e\<^sub>i - e\<^sub>k\<close>.
\<close>

definition singular :: "'a::field list \<Rightarrow> nat \<Rightarrow> bool" where
  "singular a n \<longleftrightarrow>
     (\<exists>y. length y = n \<and> (\<exists>i<n. y ! i \<noteq> 0) \<and>
          (\<forall>c<n. (\<Sum>i<n. y ! i * a ! (i * n + c)) = 0))"

text \<open>
  Column \<open>j\<close> is the first column without a nonzero pivot: the columns before \<open>j\<close> have
  completed (each found a nonzero pivot), and in column \<open>j\<close> the post-reduction value of
  every candidate row \<open>i\<close> in \<open>[j, n)\<close> is zero.
\<close>

definition first_pivotless_column ::
  "'a::{zero,one,minus,times,inverse,abs,ord} list \<Rightarrow> nat \<Rightarrow> int list \<Rightarrow> nat \<Rightarrow> bool" where
  "first_pivotless_column a n ipvt j \<longleftrightarrow>
     (case lu_columns n [0..<j] a ipvt of (e, aj, ipvtj) \<Rightarrow>
        e = Success \<and> (\<forall>i\<in>{j..<n}. cand (upper_part aj n j) n j i = 0))"

definition swap_inv :: "'a list \<Rightarrow> nat \<Rightarrow> nat \<Rightarrow> nat \<Rightarrow> nat \<Rightarrow> 'a list \<Rightarrow> bool" where
  "swap_inv a n r j m a' \<longleftrightarrow>
     length a' = length a \<and>
     (\<forall>i<n. \<forall>c<n. a' ! (i * n + c) =
        a ! ((if c < m then (if i = j then r else if i = r then j else i) else i) * n + c))"

definition scale_inv :: "'a::{one,times,inverse} list \<Rightarrow> nat \<Rightarrow> nat \<Rightarrow> nat \<Rightarrow> 'a list \<Rightarrow> bool" where
  "scale_inv a n j m a' \<longleftrightarrow>
     length a' = length a \<and>
     (\<forall>i<n. \<forall>c<n. a' ! (i * n + c) =
        (if c = j \<and> j < i \<and> i < m then a ! (i * n + j) * (1 / a ! (j * n + j))
         else a ! (i * n + c)))"

text \<open>
  The pivot search in any arithmetic, after the rows \<open>[j, m)\<close>: as long as no candidate
  has registered (\<open>largestRow = -1\<close>), \<open>largest\<close> is still \<open>0.0\<close> and the comparison
  \<open>fabs(q) >= 0.0\<close> has failed for every post-reduction value stored so far.
\<close>

definition search_inv ::
  "nat \<Rightarrow> nat \<Rightarrow> nat \<Rightarrow> 'a::{zero,abs,ord} list \<times> 'a \<times> int \<Rightarrow> bool" where
  "search_inv n j m s \<longleftrightarrow>
     (case s of (a', largest, largestRow) \<Rightarrow>
        length a' = n * n \<and>
        (largestRow = - 1 \<or> (int j \<le> largestRow \<and> largestRow < int m)) \<and>
        (largestRow = - 1 \<longrightarrow>
           largest = 0 \<and> (\<forall>r. j \<le> r \<and> r < m \<longrightarrow> \<not> abs (a' ! (r * n + j)) \<ge> 0)))"

lemma idx_lt: "(i::nat) < n \<Longrightarrow> j < n \<Longrightarrow> i * n + j < n * n"
proof -
  assume h: "i < n" "j < n"
  have "i * n + j < i * n + n" using h by simp
  also have "\<dots> = Suc i * n" by simp
  also have "\<dots> \<le> n * n" using h by (intro mult_le_mono1) simp
  finally show ?thesis .
qed

lemma idx_inj: "j < n \<Longrightarrow> j' < n \<Longrightarrow> (i * n + j = i' * n + j') = (i = i' \<and> j = (j'::nat))"
proof
  assume h: "j < n" "j' < n" and e: "i * n + j = i' * n + j'"
  have "(i * n + j) div n = i" "(i' * n + j') div n = i'" using h by simp_all
  then have "i = i'" using e by simp
  then show "i = i' \<and> j = j'" using e by simp
qed simp

lemma nth_upd_idx:
  "r < n \<Longrightarrow> c < n \<Longrightarrow> c' < n \<Longrightarrow> length a = n * n \<Longrightarrow>
   a[r * n + c := v] ! (r' * n + c') = (if r = r' \<and> c = c' then v else a ! (r' * n + c'))"
  by (simp add: idx_inj idx_lt nth_list_update)

lemma fold_upt_induct:
  assumes "lo \<le> hi" "P lo s"
    and "\<And>i s. lo \<le> i \<Longrightarrow> i < hi \<Longrightarrow> P i s \<Longrightarrow> P (Suc i) (f i s)"
  shows "P hi (fold f [lo..<hi] s)"
  using assms(1,3)
proof (induction hi)
  case 0
  then show ?case using assms(2) by simp
next
  case (Suc hi)
  show ?case
  proof (cases "lo = Suc hi")
    case True
    then show ?thesis using assms(2) by simp
  next
    case False
    then have le: "lo \<le> hi" using Suc.prems(1) by simp
    have "P hi (fold f [lo..<hi] s)"
      using Suc.IH [OF le] Suc.prems(2) by simp
    then show ?thesis using le Suc.prems(2) by simp
  qed
qed

lemma list_eq_entries:
  assumes "length a = n * n" "length a' = n * n"
    and "\<And>r c. r < n \<Longrightarrow> c < n \<Longrightarrow> a ! (r * n + c) = a' ! (r * n + c)"
  shows "a = a'"
proof (rule nth_equalityI)
  show "length a = length a'" using assms by simp
next
  fix p assume "p < length a"
  then have p: "p < n * n" using assms by simp
  then have n: "0 < n" by (cases n) simp_all
  have "p div n < n" using p n by (simp add: less_mult_imp_div_less)
  moreover have "p mod n < n" using n by simp
  ultimately have "a ! (p div n * n + p mod n) = a' ! (p div n * n + p mod n)"
    by (rule assms(3))
  then show "a ! p = a' ! p" by simp
qed

lemma fold_sub_sum:
  fixes f :: "nat \<Rightarrow> 'a::ab_group_add"
  shows "fold (\<lambda>k q. q - f k) [lo..<hi] q = q - (\<Sum>k = lo..<hi. f k)"
proof (induction hi)
  case 0
  then show ?case by simp
next
  case (Suc hi)
  show ?case
  proof (cases "lo \<le> hi")
    case True
    then show ?thesis using Suc by (simp add: algebra_simps)
  next
    case False
    then show ?thesis by simp
  qed
qed

subsection \<open>The reduction loop\<close>

lemma reduce_cong:
  assumes "\<And>k. k < m \<Longrightarrow> a ! (i * n + k) = a' ! (i' * n + k) \<and> a ! (k * n + j) = a' ! (k * n + j)"
  shows "reduce a n i j m q = reduce a' n i' j m q"
  unfolding reduce_def by (rule fold_cong) (use assms in auto)

lemma reduce_sum:
  fixes a :: "'a::comm_ring list"
  shows "reduce a n i j m q = q - (\<Sum>k<m. a ! (i * n + k) * a ! (k * n + j))"
  by (induction m) (simp_all add: reduce_def algebra_simps)

subsection \<open>Upper part\<close>

lemma upper_part_inv:
  assumes len: "length a = n * n" and j: "j < n"
  shows "upper_inv a n j j (upper_part a n j)"
  unfolding upper_part_def
proof (rule fold_upt_induct [where P = "upper_inv a n j"])
  show "upper_inv a n j 0 a" by (simp add: upper_inv_def)
next
  fix i s assume i: "i < j" and inv: "upper_inv a n j i s"
  let ?v = "reduce s n i j i (s ! (i * n + j))"
  let ?s = "s[i * n + j := ?v]"
  have ls: "length s = n * n" using inv len by (simp add: upper_inv_def)
  have i_n: "i < n" using i j by simp
  have ent: "\<And>r c. c < n \<Longrightarrow> ?s ! (r * n + c) = (if i = r \<and> j = c then ?v else s ! (r * n + c))"
    using nth_upd_idx [OF i_n j _ ls] by simp
  have frame: "\<forall>r<n. \<forall>c<n. (c \<noteq> j \<or> Suc i \<le> r) \<longrightarrow> ?s ! (r * n + c) = a ! (r * n + c)"
    using inv by (auto simp: ent upper_inv_def)
  have sij: "s ! (i * n + j) = a ! (i * n + j)"
    using inv i_n j by (simp add: upper_inv_def)
  have red: "reduce ?s n r j r q = reduce s n r j r q" if "r \<le> i" for r q
    by (rule reduce_cong) (use that i j in \<open>auto simp: ent\<close>)
  have "?s ! (r * n + j) = reduce ?s n r j r (a ! (r * n + j))" if "r < Suc i" for r
  proof (cases "r = i")
    case True
    then show ?thesis using red [of i] sij j i_n ls by (simp add: idx_lt)
  next
    case False
    then have "r < i" using that by simp
    then show ?thesis using inv red [of r] j by (simp add: ent upper_inv_def)
  qed
  then show "upper_inv a n j (Suc i) ?s"
    using frame ls len by (simp add: upper_inv_def)
qed simp

subsection \<open>Lower part\<close>

lemma cand_cong:
  assumes "j < n" "r < n" "j \<le> r"
    and "\<forall>r<n. \<forall>c<n. (c \<noteq> j \<or> r < j \<or> m \<le> r) \<longrightarrow> a' ! (r * n + c) = a ! (r * n + c)"
    and "m \<le> r"
  shows "cand a' n j r = cand a n j r"
proof -
  have "reduce a' n r j j q = reduce a n r j j q" for q
    by (rule reduce_cong) (use assms in auto)
  then show ?thesis using assms by (simp add: cand_def)
qed

lemma lower_step_inv:
  assumes len: "length a = n * n" and j: "j < n" and i: "j \<le> i" "i < n"
    and inv: "lower_inv a n j i s"
  shows "lower_inv a n j (Suc i) (lower_step n j i s)"
proof -
  obtain a' lg lr where s: "s = (a', lg, lr)" by (cases s)
  define q where "q = reduce a' n i j j (a' ! (i * n + j))"
  define a2 where "a2 = a'[i * n + j := q]"
  have la: "length a' = n * n" using inv len by (simp add: lower_inv_def s)
  have fr: "\<forall>r<n. \<forall>c<n. (c \<noteq> j \<or> r < j \<or> i \<le> r) \<longrightarrow> a' ! (r * n + c) = a ! (r * n + c)"
    using inv by (simp add: lower_inv_def s)
  have q: "q = cand a n j i"
    using cand_cong [OF j i(2) i(1) fr] by (simp add: cand_def q_def)
  have ent: "\<And>r c. c < n \<Longrightarrow> a2 ! (r * n + c) = (if i = r \<and> j = c then q else a' ! (r * n + c))"
    using nth_upd_idx [OF i(2) j _ la] by (simp add: a2_def)
  have 1: "\<forall>r<n. \<forall>c<n. (c \<noteq> j \<or> r < j \<or> Suc i \<le> r) \<longrightarrow> a2 ! (r * n + c) = a ! (r * n + c)"
    using fr i by (auto simp: ent)
  have 2: "\<forall>r. j \<le> r \<and> r < Suc i \<longrightarrow> a2 ! (r * n + j) = cand a n j r"
    using inv q j by (auto simp: ent lower_inv_def s less_Suc_eq)
  have 3: "lr = - 1 \<or> (int j \<le> lr \<and> lr < int (Suc i))"
    using inv by (auto simp: lower_inv_def s)
  have 4: "int j \<le> int i \<and> int i < int (Suc i)" using i by simp
  have 5: "length a2 = length a" using la len by (simp add: a2_def)
  have "lower_step n j i s = (if lg \<le> abs q then (a2, abs q, int i) else (a2, lg, lr))"
    by (simp add: lower_step_def s Let_def q_def a2_def)
  then show "lower_inv a n j (Suc i) (lower_step n j i s)"
    using 1 2 3 4 5 by (simp add: lower_inv_def)
qed

lemma lower_part_inv:
  assumes len: "length a = n * n" and j: "j < n"
  shows "lower_inv a n j n (lower_part a n j)"
  unfolding lower_part_def
proof (rule fold_upt_induct [where P = "lower_inv a n j"])
  show "lower_inv a n j j (a, 0, - 1)" by (auto simp: lower_inv_def)
next
  fix i s assume "j \<le> i" "i < n" "lower_inv a n j i s"
  then show "lower_inv a n j (Suc i) (lower_step n j i s)"
    by (rule lower_step_inv [OF len j])
qed (use j in simp)

lemma lower_step_pivot:
  fixes a :: "'a::linordered_field list"
  assumes len: "length a = n * n" and j: "j < n" and i: "j \<le> i" "i < n"
    and inv: "lower_inv a n j i s" and piv: "pivot_inv a n j i s"
  shows "pivot_inv a n j (Suc i) (lower_step n j i s)"
proof -
  obtain a' lg lr where s: "s = (a', lg, lr)" by (cases s)
  let ?q = "reduce a' n i j j (a' ! (i * n + j))"
  have fr: "\<forall>r<n. \<forall>c<n. (c \<noteq> j \<or> r < j \<or> i \<le> r) \<longrightarrow> a' ! (r * n + c) = a ! (r * n + c)"
    using inv by (simp add: lower_inv_def s)
  have q: "?q = cand a n j i"
    using cand_cong [OF j i(2) i(1) fr] by (simp add: cand_def)
  show ?thesis
  proof (cases "lg \<le> abs ?q")
    case True
    have "\<forall>r. j \<le> r \<and> r < Suc i \<longrightarrow> abs (cand a n j r) \<le> abs (cand a n j i)"
    proof (intro allI impI)
      fix r assume r: "j \<le> r \<and> r < Suc i"
      show "abs (cand a n j r) \<le> abs (cand a n j i)"
      proof (cases "r = i")
        case False
        then have "j < i" "r < i" using r by simp_all
        then have "abs (cand a n j r) \<le> lg" using piv r unfolding pivot_inv_def s by blast
        then show ?thesis using True q by simp
      qed simp
    qed
    then show ?thesis using True q i
      by (simp add: lower_step_def s Let_def pivot_inv_def)
  next
    case False
    then have lt: "abs (cand a n j i) < lg" using q by simp
    have ji: "j < i"
    proof (rule ccontr)
      assume "\<not> j < i"
      then have "i = j" using i by simp
      then have "lg = 0" using piv by (simp add: pivot_inv_def s)
      then show False using lt by simp
    qed
    then show ?thesis using False q i piv lt
      by (auto simp: lower_step_def s Let_def pivot_inv_def less_Suc_eq)
  qed
qed

lemma lower_part_pivot:
  fixes a :: "'a::linordered_field list"
  assumes len: "length a = n * n" and j: "j < n"
  shows "pivot_inv a n j n (lower_part a n j)"
proof -
  have "lower_inv a n j n (lower_part a n j) \<and> pivot_inv a n j n (lower_part a n j)"
    unfolding lower_part_def
  proof (rule fold_upt_induct [where P = "\<lambda>m s. lower_inv a n j m s \<and> pivot_inv a n j m s"])
    show "lower_inv a n j j (a, 0, - 1) \<and> pivot_inv a n j j (a, 0, - 1)"
      by (auto simp: lower_inv_def pivot_inv_def)
  next
    fix i s assume i: "j \<le> i" "i < n"
      and inv: "lower_inv a n j i s \<and> pivot_inv a n j i s"
    show "lower_inv a n j (Suc i) (lower_step n j i s) \<and> pivot_inv a n j (Suc i) (lower_step n j i s)"
      using lower_step_inv [OF len j i] lower_step_pivot [OF len j i] inv by blast
  qed (use j in simp)
  then show ?thesis by simp
qed

subsection \<open>Row exchange and column scaling\<close>

lemma swap_rows_inv:
  assumes len: "length a = n * n" and r: "r < n" and j: "j < n"
  shows "swap_inv a n r j n (swap_rows a n r j)"
  unfolding swap_rows_def
proof (rule fold_upt_induct [where P = "swap_inv a n r j"])
  show "swap_inv a n r j 0 a" by (simp add: swap_inv_def)
next
  fix k s assume k: "k < n" and inv: "swap_inv a n r j k s"
  define x where "x = s ! (r * n + k)"
  define y where "y = s ! (j * n + k)"
  define s1 where "s1 = s[r * n + k := y]"
  define s2 where "s2 = s1[j * n + k := x]"
  have ls: "length s = n * n" using inv len by (simp add: swap_inv_def)
  have ls1: "length s1 = n * n" using ls by (simp add: s1_def)
  have x: "x = a ! (r * n + k)" using inv r k by (simp add: swap_inv_def x_def)
  have y: "y = a ! (j * n + k)" using inv j k by (simp add: swap_inv_def y_def)
  have e1: "\<And>i c. c < n \<Longrightarrow> s1 ! (i * n + c) = (if r = i \<and> k = c then y else s ! (i * n + c))"
    using nth_upd_idx [OF r k _ ls] by (simp add: s1_def)
  have e2: "\<And>i c. c < n \<Longrightarrow> s2 ! (i * n + c) = (if j = i \<and> k = c then x else s1 ! (i * n + c))"
    using nth_upd_idx [OF j k _ ls1] by (simp add: s2_def)
  have "\<forall>i<n. \<forall>c<n. s2 ! (i * n + c) =
        a ! ((if c < Suc k then (if i = j then r else if i = r then j else i) else i) * n + c)"
    using inv by (auto simp: e1 e2 x y swap_inv_def less_Suc_eq)
  moreover have "length s2 = length a" using ls1 len by (simp add: s2_def)
  ultimately have "swap_inv a n r j (Suc k) s2" by (simp add: swap_inv_def)
  then show "swap_inv a n r j (Suc k)
     (let x = s ! (r * n + k); a1 = s[r * n + k := s ! (j * n + k)] in a1[j * n + k := x])"
    by (simp add: Let_def s2_def s1_def x_def y_def)
qed simp

lemma swap_rows_entries:
  assumes "length a = n * n" "r < n" "j < n" "i < n" "c < n"
  shows "swap_rows a n r j ! (i * n + c) = a ! ((if i = j then r else if i = r then j else i) * n + c)"
  using swap_rows_inv [OF assms(1-3)] assms(4,5) by (simp add: swap_inv_def)

lemma swap_rows_length:
  assumes "length a = n * n" "r < n" "j < n"
  shows "length (swap_rows a n r j) = n * n"
  using swap_rows_inv [OF assms(1-3)] assms(1) by (simp add: swap_inv_def)

lemma swap_rows_same:
  assumes "length a = n * n" "j < n"
  shows "swap_rows a n j j = a"
  by (rule list_eq_entries [where n = n])
     (simp_all add: swap_rows_length assms swap_rows_entries)

lemma scale_column_inv:
  assumes len: "length a = n * n" and j: "j < n"
  shows "scale_inv a n j n (scale_column a n j)"
  unfolding scale_column_def Let_def
proof (rule fold_upt_induct [where P = "scale_inv a n j"])
  show "scale_inv a n j (j + 1) a" by (auto simp: scale_inv_def)
next
  fix i s assume i: "j + 1 \<le> i" "i < n" and inv: "scale_inv a n j i s"
  define v where "v = s ! (i * n + j) * (1 / a ! (j * n + j))"
  define s1 where "s1 = s[i * n + j := v]"
  have ls: "length s = n * n" using inv len by (simp add: scale_inv_def)
  have v: "v = a ! (i * n + j) * (1 / a ! (j * n + j))"
    using inv i j by (simp add: scale_inv_def v_def)
  have e1: "\<And>r c. c < n \<Longrightarrow> s1 ! (r * n + c) = (if i = r \<and> j = c then v else s ! (r * n + c))"
    using nth_upd_idx [OF i(2) j _ ls] by (simp add: s1_def)
  have "\<forall>r<n. \<forall>c<n. s1 ! (r * n + c) =
        (if c = j \<and> j < r \<and> r < Suc i then a ! (r * n + j) * (1 / a ! (j * n + j))
         else a ! (r * n + c))"
    using inv i by (auto simp: e1 v scale_inv_def less_Suc_eq)
  moreover have "length s1 = length a" using ls len by (simp add: s1_def)
  ultimately have "scale_inv a n j (Suc i) s1" by (simp add: scale_inv_def)
  then show "scale_inv a n j (Suc i) (s[i * n + j := s ! (i * n + j) * (1 / a ! (j * n + j))])"
    by (simp add: s1_def v_def)
qed (use j in simp)

lemma scale_column_entries:
  assumes "length a = n * n" "j < n" "i < n" "c < n"
  shows "scale_column a n j ! (i * n + c) =
         (if c = j \<and> j < i then a ! (i * n + j) * (1 / a ! (j * n + j)) else a ! (i * n + c))"
  using scale_column_inv [OF assms(1,2)] assms(3,4) by (simp add: scale_inv_def)

lemma scale_column_length:
  assumes "length a = n * n" "j < n"
  shows "length (scale_column a n j) = n * n"
  using scale_column_inv [OF assms] assms(1) by (simp add: scale_inv_def)

lemma upper_part_length:
  assumes "length a = n * n" "j < n"
  shows "length (upper_part a n j) = n * n"
  using upper_part_inv [OF assms] assms(1) by (simp add: upper_inv_def)

lemma lower_part_length:
  assumes "length a = n * n" "j < n"
  shows "length (fst (lower_part a n j)) = n * n"
  using lower_part_inv [OF assms] assms(1) by (auto simp: lower_inv_def split: prod.splits)

lemma lower_part_row_range:
  assumes "length a = n * n" "j < n" "lower_part a n j = (a2, lg, lr)"
  shows "lr = - 1 \<or> (int j \<le> lr \<and> lr < int n)"
  using lower_part_inv [OF assms(1,2)] assms(3) by (simp add: lower_inv_def)

lemma pivot_search_spec:
  fixes a :: "'a::linordered_field list"
  assumes "length a = n * n" "j < n" "lower_part a n j = (a2, largest, largestRow)"
  shows "int j \<le> largestRow \<and> largestRow < int n \<and>
         (\<forall>i. j \<le> i \<and> i < n \<longrightarrow> a2 ! (i * n + j) = reduce a n i j j (a ! (i * n + j))) \<and>
         largest = abs (a2 ! (nat largestRow * n + j)) \<and>
         (\<forall>i. j \<le> i \<and> i < n \<longrightarrow> abs (a2 ! (i * n + j)) \<le> largest) \<and>
         (\<forall>i. nat largestRow < i \<and> i < n \<longrightarrow> abs (a2 ! (i * n + j)) < largest)"
proof -
  have li: "lower_inv a n j n (a2, largest, largestRow)"
    using lower_part_inv [OF assms(1,2)] assms(3) by simp
  have pi: "pivot_inv a n j n (a2, largest, largestRow)"
    using lower_part_pivot [OF assms(1,2)] assms(3) by simp
  have ent: "\<forall>i. j \<le> i \<and> i < n \<longrightarrow> a2 ! (i * n + j) = cand a n j i"
    using li by (simp add: lower_inv_def)
  have rng: "int j \<le> largestRow" "largestRow < int n"
    using pi assms(2) by (simp_all add: pivot_inv_def)
  then have r: "j \<le> nat largestRow \<and> nat largestRow < n" by auto
  have pv: "largest = abs (cand a n j (nat largestRow)) \<and>
      (\<forall>i. j \<le> i \<and> i < n \<longrightarrow> abs (cand a n j i) \<le> largest) \<and>
      (\<forall>i. nat largestRow < i \<and> i < n \<longrightarrow> abs (cand a n j i) < largest)"
    using pi assms(2) unfolding pivot_inv_def prod.case by blast
  have lg: "largest = abs (cand a n j (nat largestRow))" using pv by blast
  have mx: "\<forall>i. j \<le> i \<and> i < n \<longrightarrow> abs (cand a n j i) \<le> largest" using pv by blast
  have st: "\<forall>i. nat largestRow < i \<and> i < n \<longrightarrow> abs (cand a n j i) < largest" using pv by blast
  have "largest = abs (a2 ! (nat largestRow * n + j))" using lg ent r by simp
  moreover have "\<forall>i. j \<le> i \<and> i < n \<longrightarrow> abs (a2 ! (i * n + j)) \<le> largest"
    using mx ent by simp
  moreover have "\<forall>i. nat largestRow < i \<and> i < n \<longrightarrow> abs (a2 ! (i * n + j)) < largest"
    using st ent r by simp
  moreover have "\<forall>i. j \<le> i \<and> i < n \<longrightarrow> a2 ! (i * n + j) = reduce a n i j j (a ! (i * n + j))"
    using ent by (simp add: cand_def)
  ultimately show ?thesis using rng by blast
qed

subsection \<open>One column\<close>

lemma scale_column_last: "scale_column a n (n - 1) = a"
  by (cases n) (simp_all add: scale_column_def)

lemma lu_column_unfold:
  assumes len: "length a = n * n" and j: "j < n"
    and lp: "lower_part (upper_part a n j) n j = (a2, lg, lr)"
  shows "lu_column n j a ipvt =
     (if lr = - 1 then Inl (No_Candidate j, a2, ipvt)
      else let a3 = swap_rows a2 n (nat lr) j
           in if a3 ! (j * n + j) = 0 then Inl (Zero_Diagonal j, a3, ipvt[j := lr])
              else Inr (scale_column a3 n j, ipvt[j := lr]))"
proof -
  have la2: "length a2 = n * n"
    using lower_part_length [OF upper_part_length [OF len j] j] lp by simp
  have same: "swap_rows a2 n j j = a2" by (rule swap_rows_same [OF la2 j])
  have last: "int j = int n - 1 \<Longrightarrow> scale_column a3 n j = a3" for a3 :: "'a list"
  proof -
    assume "int j = int n - 1"
    then have "j = n - 1" by simp
    then show ?thesis using scale_column_last by simp
  qed
  show ?thesis
  proof (cases "int j = lr")
    case True
    then have "nat lr = j" by auto
    then show ?thesis using True same last
      by (auto simp: lu_column_def lp after_pivot_def Let_def)
  next
    case False
    then show ?thesis using last
      by (auto simp: lu_column_def lp after_pivot_def Let_def)
  qed
qed

lemma lu_column_Inl_not_Success: "lu_column n j a ipvt = Inl (e, r) \<Longrightarrow> e \<noteq> Success"
  by (auto simp: lu_column_def after_pivot_def Let_def split: prod.splits if_splits)

lemma lu_column_Inr:
  assumes len: "length a = n * n" and j: "j < n"
    and col: "lu_column n j a ipvt = Inr (a', ipvt')"
  obtains a2 lg r where
    "lower_part (upper_part a n j) n j = (a2, lg, int r)" "j \<le> r" "r < n"
    "ipvt' = ipvt[j := int r]"
    "a' = scale_column (swap_rows a2 n r j) n j"
    "swap_rows a2 n r j ! (j * n + j) \<noteq> 0"
proof -
  obtain a2 lg lr where lp: "lower_part (upper_part a n j) n j = (a2, lg, lr)"
    by (cases "lower_part (upper_part a n j) n j")
  have rng: "lr = - 1 \<or> (int j \<le> lr \<and> lr < int n)"
    by (rule lower_part_row_range [OF upper_part_length [OF len j] j lp])
  have u: "lu_column n j a ipvt =
     (if lr = - 1 then Inl (No_Candidate j, a2, ipvt)
      else let a3 = swap_rows a2 n (nat lr) j
           in if a3 ! (j * n + j) = 0 then Inl (Zero_Diagonal j, a3, ipvt[j := lr])
              else Inr (scale_column a3 n j, ipvt[j := lr]))"
    by (rule lu_column_unfold [OF len j lp])
  have ne: "lr \<noteq> - 1" using u col by auto
  then have r: "int j \<le> lr" "lr < int n" using rng by simp_all
  then have lr: "lr = int (nat lr)" by simp
  have "lower_part (upper_part a n j) n j = (a2, lg, int (nat lr))" using lp lr by simp
  moreover have "j \<le> nat lr" "nat lr < n" using r by simp_all
  moreover have "ipvt' = ipvt[j := int (nat lr)]" "a' = scale_column (swap_rows a2 n (nat lr) j) n j"
    "swap_rows a2 n (nat lr) j ! (j * n + j) \<noteq> 0"
    using u col ne r by (auto simp: Let_def split: if_splits)
  ultimately show ?thesis by (rule that)
qed

subsection \<open>The entries after one column\<close>

lemma lu_column_Inr_entries:
  assumes len: "length a = n * n" and j: "j < n"
    and col: "lu_column n j a ipvt = Inr (a', ipvt')"
  obtains r where "j \<le> r" "r < n" "ipvt' = ipvt[j := int r]" "length a' = n * n"
    "a' ! (j * n + j) \<noteq> 0"
    "\<forall>i<n. \<forall>c<n. c \<noteq> j \<longrightarrow>
        a' ! (i * n + c) = a ! ((if i = j then r else if i = r then j else i) * n + c)"
    "\<forall>i<j. a' ! (i * n + j) = reduce a' n i j i (a ! (i * n + j))"
    "a' ! (j * n + j) = reduce a' n j j j (a ! (r * n + j))"
    "\<forall>i. j < i \<and> i < n \<longrightarrow> a' ! (i * n + j) =
        reduce a' n i j j (a ! ((if i = r then j else i) * n + j)) * (1 / a' ! (j * n + j))"
proof -
  obtain a2 lg r where lp: "lower_part (upper_part a n j) n j = (a2, lg, int r)"
    and r: "j \<le> r" "r < n" and ip: "ipvt' = ipvt[j := int r]"
    and a': "a' = scale_column (swap_rows a2 n r j) n j"
    and nz: "swap_rows a2 n r j ! (j * n + j) \<noteq> 0"
    using lu_column_Inr [OF len j col] by blast
  define a1 where "a1 = upper_part a n j"
  define a3 where "a3 = swap_rows a2 n r j"
  define sg where "sg = (\<lambda>i. if i = j then r else if i = r then j else i)"
  have sg_lt: "sg i < n" if "i < n" for i using that r j by (simp add: sg_def)
  have sg_ge: "j \<le> sg i" if "j \<le> i" for i using that r by (simp add: sg_def)
  have sg_low: "sg i = i" if "i < j" for i using that r by (simp add: sg_def)
  have l1: "length a1 = n * n" unfolding a1_def by (rule upper_part_length [OF len j])
  have l2: "length a2 = n * n" using lower_part_length [OF l1 j] lp by (simp add: a1_def)
  have l3: "length a3 = n * n" unfolding a3_def by (rule swap_rows_length [OF l2 r(2) j])
  have l4: "length a' = n * n" using scale_column_length [OF l3 j] by (simp add: a' a3_def)
  have ui: "upper_inv a n j j a1" unfolding a1_def by (rule upper_part_inv [OF len j])
  have li: "lower_inv a1 n j n (a2, lg, int r)"
    using lower_part_inv [OF l1 j] lp by (simp add: a1_def)
  have e1: "a1 ! (i * n + c) = a ! (i * n + c)" if "i < n" "c < n" "c \<noteq> j \<or> j \<le> i" for i c
    using ui that by (simp add: upper_inv_def)
  have e1u: "a1 ! (i * n + j) = reduce a1 n i j i (a ! (i * n + j))" if "i < j" for i
    using ui that by (simp add: upper_inv_def)
  have e2: "a2 ! (i * n + c) = a1 ! (i * n + c)" if "i < n" "c < n" "c \<noteq> j \<or> i < j" for i c
    using li that by (simp add: lower_inv_def)
  have e2l: "a2 ! (i * n + j) = reduce a1 n i j j (a1 ! (i * n + j))" if "j \<le> i" "i < n" for i
    using li that by (simp add: lower_inv_def cand_def)
  have e3: "a3 ! (i * n + c) = a2 ! (sg i * n + c)" if "i < n" "c < n" for i c
    using swap_rows_entries [OF l2 r(2) j that] by (simp add: a3_def sg_def)
  have e4: "a' ! (i * n + c) =
      (if c = j \<and> j < i then a3 ! (i * n + j) * (1 / a3 ! (j * n + j)) else a3 ! (i * n + c))"
    if "i < n" "c < n" for i c
    using scale_column_entries [OF l3 j that] by (simp add: a' a3_def)
  have other: "a' ! (i * n + c) = a ! (sg i * n + c)" if "i < n" "c < n" "c \<noteq> j" for i c
    using that sg_lt [OF that(1)] by (simp add: e4 e3 e2 e1)
  have upper: "a' ! (i * n + j) = a1 ! (i * n + j)" if "i < j" for i
    using that j sg_low [OF that] by (simp add: e4 e3 e2)
  have diag: "a' ! (j * n + j) = a3 ! (j * n + j)" using j by (simp add: e4)
  have red_upper: "reduce a' n i j i q = reduce a1 n i j i q" if "i < j" for i q
  proof (rule reduce_cong, intro conjI)
    fix k assume k: "k < i"
    have "a' ! (i * n + k) = a ! (i * n + k)"
      using other [of i k] k that j sg_low [OF that] by simp
    then show "a' ! (i * n + k) = a1 ! (i * n + k)" using e1 [of i k] k that j by simp
    show "a' ! (k * n + j) = a1 ! (k * n + j)" using upper [of k] k that by simp
  qed
  have red_lower: "reduce a' n i j j q = reduce a1 n (sg i) j j q" if "j \<le> i" "i < n" for i q
  proof (rule reduce_cong, intro conjI)
    fix k assume k: "k < j"
    have "a' ! (i * n + k) = a ! (sg i * n + k)" using other [of i k] k that j by simp
    then show "a' ! (i * n + k) = a1 ! (sg i * n + k)"
      using e1 [of "sg i" k] k sg_lt [OF that(2)] j by simp
    show "a' ! (k * n + j) = a1 ! (k * n + j)" using upper [of k] k by simp
  qed
  have sgj: "sg j = r" by (simp add: sg_def)
  have 7: "\<forall>i<j. a' ! (i * n + j) = reduce a' n i j i (a ! (i * n + j))"
    using upper e1u red_upper by simp
  have d: "a' ! (j * n + j) = reduce a' n j j j (a ! (r * n + j))"
    using diag e3 [of j j] j e2l [of r] r e1 [of r j] red_lower [of j] sgj by simp
  have 9: "\<forall>i. j < i \<and> i < n \<longrightarrow> a' ! (i * n + j) =
        reduce a' n i j j (a ! ((if i = r then j else i) * n + j)) * (1 / a' ! (j * n + j))"
  proof (intro allI impI)
    fix i assume i: "j < i \<and> i < n"
    then have s: "sg i = (if i = r then j else i)" by (simp add: sg_def)
    have sn: "sg i < n" "j \<le> sg i" using sg_lt [of i] sg_ge [of i] i by simp_all
    have "a' ! (i * n + j) = a3 ! (i * n + j) * (1 / a3 ! (j * n + j))"
      using i j by (simp add: e4)
    also have "a3 ! (i * n + j) = a2 ! (sg i * n + j)" using e3 [of i j] i j by simp
    also have "\<dots> = reduce a1 n (sg i) j j (a1 ! (sg i * n + j))" using e2l sn by simp
    also have "a1 ! (sg i * n + j) = a ! (sg i * n + j)" using e1 [of "sg i" j] sn j by simp
    also have "reduce a1 n (sg i) j j (a ! (sg i * n + j)) = reduce a' n i j j (a ! (sg i * n + j))"
      using red_lower [of i] i by simp
    finally show "a' ! (i * n + j) =
        reduce a' n i j j (a ! ((if i = r then j else i) * n + j)) * (1 / a' ! (j * n + j))"
      using diag s by simp
  qed
  have 5: "a' ! (j * n + j) \<noteq> 0" using diag nz by (simp add: a3_def)
  have 6: "\<forall>i<n. \<forall>c<n. c \<noteq> j \<longrightarrow>
        a' ! (i * n + c) = a ! ((if i = j then r else if i = r then j else i) * n + c)"
    using other by (simp add: sg_def)
  show ?thesis using that [OF r ip l4 5 6 7 d 9] .
qed

section \<open>The all-zero-row pre-check\<close>

lemma row_all_zeros_iff: "row_all_zeros a n i \<longleftrightarrow> (\<forall>j<n. a ! (i * n + j) = 0)"
  by (auto simp: row_all_zeros_def list_all_iff)

lemma find_first:
  assumes "i < n" "P i"
  obtains r where "r \<le> i" "P r" "\<forall>k<r. \<not> P k" "find P [0..<n] = Some r"
proof -
  have "find P [0..<n] \<noteq> None" using assms by (auto simp: find_None_iff)
  then obtain r where f: "find P [0..<n] = Some r" by auto
  then obtain m where m: "m < n" "P ([0..<n] ! m)" "r = [0..<n] ! m" "\<forall>k<m. \<not> P ([0..<n] ! k)"
    by (auto simp: find_Some_iff)
  then have r: "r < n" "P r" "\<forall>k<r. \<not> P k" by auto
  have "r \<le> i"
  proof (rule ccontr)
    assume "\<not> r \<le> i"
    then have "i < r" by simp
    then show False using r(3) assms(2) by blast
  qed
  then show ?thesis using r f that by blast
qed

text \<open>
  C3. If some row \<open>i\<close> of the matrix is entirely zero, \<open>lu_factor\<close> returns the index \<open>r\<close>
  of the first entirely-zero row, through the \<open>return\<close> of the pre-check (before the
  column loop), and the matrix buffer and \<open>ipvt\<close> are returned unmodified.
\<close>

theorem zero_row_precheck:
  fixes a :: "'a::{zero,one,minus,times,inverse,abs,ord} list"
  assumes "i < n" "\<forall>j<n. a ! (i * n + j) = 0"
  shows "\<exists>r\<le>i. (\<forall>j<n. a ! (r * n + j) = 0) \<and> (\<forall>k<r. \<exists>j<n. a ! (k * n + j) \<noteq> 0) \<and>
           lu_factor_exit a n ipvt = (Zero_Row r, a, ipvt) \<and>
           lu_factor a n ipvt = (int r, a, ipvt)"
proof -
  have "row_all_zeros a n i" using assms(2) by (simp add: row_all_zeros_iff)
  with assms(1) obtain r where r: "r \<le> i" "row_all_zeros a n r"
    "\<forall>k<r. \<not> row_all_zeros a n k" "find (row_all_zeros a n) [0..<n] = Some r"
    by (rule find_first)
  have "lu_factor_exit a n ipvt = (Zero_Row r, a, ipvt)"
    using r(4) by (simp add: lu_factor_exit_def)
  moreover from this have "lu_factor a n ipvt = (int r, a, ipvt)"
    by (simp add: lu_factor_def)
  moreover have "\<forall>j<n. a ! (r * n + j) = 0" using r(2) by (simp add: row_all_zeros_iff)
  moreover have "\<forall>k<r. \<exists>j<n. a ! (k * n + j) \<noteq> 0" using r(3) by (simp add: row_all_zeros_iff)
  ultimately show ?thesis using r(1) by blast
qed

theorem zero_row_precheck_witness:
  "\<exists>r\<le>2. (\<forall>j<3. [1, 2, 3, 0, 0, 0, 0, 0, 0 :: rat] ! (r * 3 + j) = 0) \<and>
     (\<forall>k<r. \<exists>j<3. [1, 2, 3, 0, 0, 0, 0, 0, 0 :: rat] ! (k * 3 + j) \<noteq> 0) \<and>
     lu_factor_exit [1, 2, 3, 0, 0, 0, 0, 0, 0 :: rat] 3 [7, 8, 9]
       = (Zero_Row r, [1, 2, 3, 0, 0, 0, 0, 0, 0], [7, 8, 9]) \<and>
     lu_factor [1, 2, 3, 0, 0, 0, 0, 0, 0 :: rat] 3 [7, 8, 9]
       = (int r, [1, 2, 3, 0, 0, 0, 0, 0, 0], [7, 8, 9])"
proof -
  have h: "\<forall>j<3. [1, 2, 3, 0, 0, 0, 0, 0, 0 :: rat] ! (2 * 3 + j) = 0"
    by (simp add: less_Suc_eq numeral_3_eq_3)
  show ?thesis
    using zero_row_precheck [of 2 3 "[1, 2, 3, 0, 0, 0, 0, 0, 0 :: rat]" "[7, 8, 9]", OF _ h]
    by simp
qed

section \<open>The pivot search\<close>

text \<open>
  C6. In the pivot search of column \<open>j\<close> the selected row \<open>largestRow\<close> lies in \<open>[j, n)\<close>,
  its absolute post-reduction value \<open>largest\<close> is maximal among the rows \<open>[j, n)\<close>, and
  every later row has a strictly smaller absolute value: of several rows with the same
  maximal absolute value the last one is selected.
\<close>

theorem pivot_tie_break:
  fixes a :: "'a::linordered_field list"
  assumes "length a = n * n" "j < n" "lower_part a n j = (a2, largest, largestRow)"
  shows "int j \<le> largestRow \<and> largestRow < int n \<and>
         (\<forall>i. j \<le> i \<and> i < n \<longrightarrow> a2 ! (i * n + j) = reduce a n i j j (a ! (i * n + j))) \<and>
         largest = abs (a2 ! (nat largestRow * n + j)) \<and>
         (\<forall>i. j \<le> i \<and> i < n \<longrightarrow> abs (a2 ! (i * n + j)) \<le> largest) \<and>
         (\<forall>i. nat largestRow < i \<and> i < n \<longrightarrow> abs (a2 ! (i * n + j)) < largest)"
  using assms by (rule pivot_search_spec)

theorem pivot_tie_break_witness:
  "lower_part [2, 0, 0, - 2, 1, 0, 2, 0, 1 :: rat] 3 0
     = ([2, 0, 0, - 2, 1, 0, 2, 0, 1], 2, 2) \<and>
   (2::rat) = abs ([2, 0, 0, - 2, 1, 0, 2, 0, 1 :: rat] ! (nat 2 * 3 + 0)) \<and>
   abs ([2, 0, 0, - 2, 1, 0, 2, 0, 1 :: rat] ! (0 * 3 + 0)) \<le> 2 \<and>
   abs ([2, 0, 0, - 2, 1, 0, 2, 0, 1 :: rat] ! (1 * 3 + 0)) \<le> 2"
proof -
  have e: "lower_part [2, 0, 0, - 2, 1, 0, 2, 0, 1 :: rat] 3 0
     = ([2, 0, 0, - 2, 1, 0, 2, 0, 1], 2, 2)"
    by code_simp
  show ?thesis
    using pivot_tie_break [of "[2, 0, 0, - 2, 1, 0, 2, 0, 1 :: rat]" 3 0, OF _ _ e] e
    by simp
qed

section \<open>Recording the pivot row\<close>

text \<open>
  C7. When the loop body for column \<open>j\<close> completes without returning, \<open>ipvt[j]\<close> has been
  written with the selected pivot row \<open>largestRow\<close> and no other entry of \<open>ipvt\<close> has
  changed; when no rows are exchanged (\<open>largestRow = j\<close>) the value \<open>j\<close> is written all
  the same.
\<close>

theorem ipvt_records_pivot:
  fixes a :: "'a::{zero,one,minus,times,inverse,abs,ord} list"
  assumes "j < length ipvt" "lu_column n j a ipvt = Inr (a', ipvt')"
    "lower_part (upper_part a n j) n j = (a2, largest, largestRow)"
  shows "ipvt' = ipvt[j := largestRow] \<and> ipvt' ! j = largestRow \<and>
         (largestRow = int j \<longrightarrow> ipvt' ! j = int j)"
proof -
  have "ipvt' = ipvt[j := largestRow]"
    using assms(2,3)
    by (auto simp: lu_column_def after_pivot_def Let_def split: if_splits)
  then show ?thesis using assms(1) by simp
qed

theorem ipvt_records_pivot_witness:
  "lu_column 2 0 [1, 0, 0, 1 :: rat] [7, 7] = Inr ([1, 0, 0, 1], [0, 7]) \<and>
   [0, 7] = [7, 7][0 := (0::int)] \<and> [0, 7 :: int] ! 0 = 0"
proof -
  have c: "lu_column 2 0 [1, 0, 0, 1 :: rat] [7, 7] = Inr ([1, 0, 0, 1], [0, 7])"
    by code_simp
  have l: "lower_part (upper_part [1, 0, 0, 1 :: rat] 2 0) 2 0 = ([1, 0, 0, 1], 1, 0)"
    by code_simp
  show ?thesis
    using ipvt_records_pivot [of 0 "[7, 7]" 2 "[1, 0, 0, 1 :: rat]", OF _ c l] c
    by simp
qed

section \<open>Columns whose candidates are all zero\<close>

text \<open>
  C5, as the code has it. In the matrix with all entries 1, column 1 has a single
  candidate (row 1) whose post-reduction value is exactly zero. The comparison
  \<open>0 >= 0\<close> holds, so the candidate registers (\<open>largestRow = 1\<close>, not -1), \<open>ipvt[1]\<close> is
  written, and the function returns from the zero-diagonal check.
\<close>

theorem zero_candidate_registers:
  "lu_column 2 0 [1, 1, 1, 1 :: rat] [0, 0] = Inr ([1, 1, 1, 1], [1, 0]) \<and>
   lower_part (upper_part [1, 1, 1, 1 :: rat] 2 1) 2 1 = ([1, 1, 1, 0], 0, 1) \<and>
   lu_factor_exit [1, 1, 1, 1 :: rat] 2 [0, 0] = (Zero_Diagonal 1, [1, 1, 1, 0], [1, 1])"
  by code_simp

text \<open>
  C5, amended. If in column \<open>j\<close> every candidate row \<open>i\<close> in \<open>[j, n)\<close> has a post-reduction
  value whose absolute value is exactly zero, then the last row registers as the pivot
  candidate (\<open>largestRow = n - 1\<close>, since \<open>0 >= 0\<close> holds at every row), rows \<open>j\<close> and
  \<open>n - 1\<close> are exchanged when they differ, \<open>ipvt[j] = n - 1\<close> is written, and \<open>lu_factor\<close>
  fails at the zero-diagonal check, reporting column \<open>j\<close>.
\<close>

theorem all_zero_candidates:
  fixes a :: "'a::linordered_field list"
  assumes "length a = n * n" "j < n"
    "lower_part (upper_part a n j) n j = (a2, largest, largestRow)"
    "\<forall>i. j \<le> i \<and> i < n \<longrightarrow> abs (a2 ! (i * n + j)) = 0"
  shows "largestRow = int n - 1 \<and> largest = 0 \<and>
         lu_column n j a ipvt =
           Inl (Zero_Diagonal j, if j = n - 1 then a2 else swap_rows a2 n (n - 1) j,
                ipvt[j := int n - 1])"
proof -
  have l1: "length (upper_part a n j) = n * n" by (rule upper_part_length [OF assms(1,2)])
  have l2: "length a2 = n * n" using lower_part_length [OF l1 assms(2)] assms(3) by simp
  have ps: "int j \<le> largestRow \<and> largestRow < int n \<and>
         (\<forall>i. j \<le> i \<and> i < n \<longrightarrow> a2 ! (i * n + j) =
            reduce (upper_part a n j) n i j j (upper_part a n j ! (i * n + j))) \<and>
         largest = abs (a2 ! (nat largestRow * n + j)) \<and>
         (\<forall>i. j \<le> i \<and> i < n \<longrightarrow> abs (a2 ! (i * n + j)) \<le> largest) \<and>
         (\<forall>i. nat largestRow < i \<and> i < n \<longrightarrow> abs (a2 ! (i * n + j)) < largest)"
    by (rule pivot_search_spec [OF l1 assms(2,3)])
  then have r: "j \<le> nat largestRow" "nat largestRow < n" by auto
  have lg: "largest = 0" using ps r assms(4) by simp
  have last: "nat largestRow = n - 1"
  proof (rule ccontr)
    assume "nat largestRow \<noteq> n - 1"
    then have "nat largestRow < n - 1 \<and> n - 1 < n" using r by auto
    then have "abs (a2 ! ((n - 1) * n + j)) < largest" using ps by blast
    then show False using lg by simp
  qed
  then have lr: "largestRow = int n - 1" using ps r by auto
  then have ne: "largestRow \<noteq> - 1" using assms(2) by auto
  have z: "a2 ! ((n - 1) * n + j) = 0" using assms(4) r last by simp
  have r': "n - 1 < n" using assms(2) by simp
  have "swap_rows a2 n (n - 1) j ! (j * n + j) = 0"
    using swap_rows_entries [OF l2 r' assms(2) assms(2) assms(2)] z by simp
  moreover have "swap_rows a2 n (n - 1) j = a2" if "j = n - 1"
    using swap_rows_same [OF l2 assms(2)] that by simp
  ultimately have "lu_column n j a ipvt =
           Inl (Zero_Diagonal j, if j = n - 1 then a2 else swap_rows a2 n (n - 1) j,
                ipvt[j := int n - 1])"
    using lu_column_unfold [OF assms(1,2,3)] ne last lr by (simp add: Let_def)
  then show ?thesis using lr lg by simp
qed

theorem all_zero_candidates_witness:
  "lower_part (upper_part [1, 2, 3, 1, 2, 4, 1, 2, 5 :: rat] 3 1) 3 1
     = ([1, 2, 3, 1, 0, 4, 1, 0, 5], 0, 2) \<and>
   (2::int) = int 3 - 1 \<and>
   lu_column 3 1 [1, 2, 3, 1, 2, 4, 1, 2, 5 :: rat] [2, 7, 7]
     = Inl (Zero_Diagonal 1, swap_rows [1, 2, 3, 1, 0, 4, 1, 0, 5] 3 (3 - 1) 1, [2, 7, 7][1 := int 3 - 1])"
proof -
  have l: "lower_part (upper_part [1, 2, 3, 1, 2, 4, 1, 2, 5 :: rat] 3 1) 3 1
     = ([1, 2, 3, 1, 0, 4, 1, 0, 5], 0, 2)"
    by code_simp
  have z: "\<forall>i. 1 \<le> i \<and> i < 3 \<longrightarrow> abs ([1, 2, 3, 1, 0, 4, 1, 0, 5 :: rat] ! (i * 3 + 1)) = 0"
    by (auto simp: less_Suc_eq numeral_3_eq_3 le_Suc_eq)
  show ?thesis
    using all_zero_candidates [of "[1, 2, 3, 1, 2, 4, 1, 2, 5 :: rat]" 3 1, OF _ _ l z, of "[2, 7, 7]"] l
    by simp
qed

section \<open>Pivot entries and diagonal after a successful factorization\<close>

lemma lu_factor_success:
  assumes "lu_factor a n ipvt = (- 1, a', ipvt')"
  shows "find (row_all_zeros a n) [0..<n] = None \<and>
         lu_columns n [0..<n] a ipvt = (Success, a', ipvt')"
proof -
  obtain e where e: "lu_factor_exit a n ipvt = (e, a', ipvt')" "ret_code e = - 1"
    using assms by (auto simp: lu_factor_def split: prod.splits)
  have "e = Success" using e(2) by (cases e) simp_all
  then show ?thesis using e(1) by (auto simp: lu_factor_exit_def split: option.splits)
qed

lemma lu_columns_pivots:
  "m \<le> n \<Longrightarrow> length a = n * n \<Longrightarrow> length ipvt = n \<Longrightarrow>
   (\<forall>k<m. int k \<le> ipvt ! k \<and> ipvt ! k < int n \<and> a ! (k * n + k) \<noteq> 0) \<Longrightarrow>
   lu_columns n [m..<n] a ipvt = (Success, a', ipvt') \<Longrightarrow>
   length a' = n * n \<and> length ipvt' = n \<and>
   (\<forall>k<n. int k \<le> ipvt' ! k \<and> ipvt' ! k < int n \<and> a' ! (k * n + k) \<noteq> 0)"
proof (induction "n - m" arbitrary: m a ipvt)
  case 0
  then have "m = n" by simp
  then show ?case using 0 by simp
next
  case (Suc d)
  then have m: "m < n" by simp
  have up: "[m..<n] = m # [Suc m..<n]" using m by (simp add: upt_conv_Cons)
  show ?case
  proof (cases "lu_column n m a ipvt")
    case (Inl x)
    obtain e rest where x: "x = (e, rest)" by (cases x)
    have "e \<noteq> Success" using lu_column_Inl_not_Success Inl x by blast
    then show ?thesis using Suc.prems(5) up Inl x by simp
  next
    case (Inr y)
    obtain a1 ipvt1 where y: "y = (a1, ipvt1)" by (cases y)
    have col: "lu_column n m a ipvt = Inr (a1, ipvt1)" using Inr y by simp
    obtain r where r: "m \<le> r" "r < n" "ipvt1 = ipvt[m := int r]" "length a1 = n * n"
      "a1 ! (m * n + m) \<noteq> 0"
      "\<forall>i<n. \<forall>c<n. c \<noteq> m \<longrightarrow>
        a1 ! (i * n + c) = a ! ((if i = m then r else if i = r then m else i) * n + c)"
      using lu_column_Inr_entries [OF Suc.prems(2) m col] by blast
    have inv: "\<forall>k<Suc m. int k \<le> ipvt1 ! k \<and> ipvt1 ! k < int n \<and> a1 ! (k * n + k) \<noteq> 0"
    proof (intro allI impI)
      fix k assume k: "k < Suc m"
      show "int k \<le> ipvt1 ! k \<and> ipvt1 ! k < int n \<and> a1 ! (k * n + k) \<noteq> 0"
      proof (cases "k = m")
        case True
        then show ?thesis using r m Suc.prems(3) by simp
      next
        case False
        then have km: "k < m" using k by simp
        then have "a1 ! (k * n + k) = a ! (k * n + k)" using r(6) r(1) m by simp
        then show ?thesis using Suc.prems(4) km r(3) by simp
      qed
    qed
    have rest: "lu_columns n [Suc m..<n] a1 ipvt1 = (Success, a', ipvt')"
      using Suc.prems(5) up col by simp
    have d: "d = n - Suc m" using Suc.hyps(2) by simp
    have "Suc m \<le> n" using m by simp
    moreover have "length ipvt1 = n" using r(3) Suc.prems(3) by simp
    ultimately show ?thesis using Suc.hyps(1) [OF d _ r(4) _ inv rest] by simp
  qed
qed

text \<open>
  C9. When \<open>lu_factor\<close> returns -1, every pivot entry satisfies \<open>j \<le> ipvt[j] < n\<close>, so each
  access \<open>b[ipvt[i]]\<close> of \<open>lu_solve\<close> is inside a right-hand side of length \<open>n\<close>, and every
  diagonal entry of the factored matrix is nonzero, so no division of \<open>lu_solve\<close> has a
  zero divisor.
\<close>

theorem pivots_in_range:
  fixes a :: "'a::{zero,one,minus,times,inverse,abs,ord} list"
  assumes "length a = n * n" "length ipvt = n" "lu_factor a n ipvt = (- 1, a', ipvt')"
  shows "\<forall>j<n. int j \<le> ipvt' ! j \<and> ipvt' ! j < int n \<and> nat (ipvt' ! j) < n \<and>
               a' ! (j * n + j) \<noteq> 0"
proof -
  have "lu_columns n [0..<n] a ipvt = (Success, a', ipvt')"
    using lu_factor_success [OF assms(3)] by simp
  then have "\<forall>k<n. int k \<le> ipvt' ! k \<and> ipvt' ! k < int n \<and> a' ! (k * n + k) \<noteq> 0"
    using lu_columns_pivots [of 0 n a ipvt a' ipvt'] assms(1,2) by simp
  then show ?thesis by auto
qed

theorem pivots_in_range_witness:
  "lu_factor [4, 3, 6, 3 :: rat] 2 [7, 7] = (- 1, [6, 3, 2 / 3, 1], [1, 1]) \<and>
   int 0 \<le> [1, 1] ! 0 \<and> [1, 1] ! 0 < int 2 \<and> [6, 3, 2 / 3, 1 :: rat] ! (0 * 2 + 0) \<noteq> 0 \<and>
   int 1 \<le> [1, 1] ! 1 \<and> [1, 1] ! 1 < int 2 \<and> [6, 3, 2 / 3, 1 :: rat] ! (1 * 2 + 1) \<noteq> 0"
proof -
  have f: "lu_factor [4, 3, 6, 3 :: rat] 2 [7, 7] = (- 1, [6, 3, 2 / 3, 1], [1, 1])"
    by code_simp
  show ?thesis
    using pivots_in_range [of "[4, 3, 6, 3 :: rat]" 2 "[7, 7]", OF _ _ f] f
    by simp
qed

section \<open>The exchanges of lu_solve\<close>

lemma length_exchange [simp]: "length (exchange ipvt i b) = length b"
  by (simp add: exchange_def Let_def)

lemma fold_exchange_length [simp]: "length (fold (exchange ipvt) is b) = length b"
  by (induction "is" arbitrary: b) simp_all

lemma perm_scan_spec:
  "perm_scan ipvt n i b = (i0, bi, b1) \<Longrightarrow> i \<le> n \<Longrightarrow>
   b1 = fold (exchange ipvt) [i..<i0] b \<and> i \<le> i0 \<and> i0 \<le> n \<and>
   (i0 = n \<and> bi = 0 \<or> i0 = Suc bi \<and> i \<le> bi \<and> bi < n)"
proof (induction ipvt n i b rule: perm_scan.induct)
  case (1 ipvt n i b)
  show ?case
  proof (cases "i < n")
    case False
    then show ?thesis using "1.prems" by (simp add: perm_scan.simps)
  next
    case True
    define b2 where "b2 = exchange ipvt i b"
    show ?thesis
    proof (cases "b ! nat (ipvt ! i) \<noteq> 0")
      case nz: True
      then have "perm_scan ipvt n i b = (i + 1, i, b2)"
        using True by (subst perm_scan.simps) (simp add: Let_def b2_def exchange_def)
      then show ?thesis using "1.prems" True by (simp add: b2_def)
    next
      case z: False
      then have eq: "perm_scan ipvt n i b = perm_scan ipvt n (i + 1) b2"
        using True by (subst perm_scan.simps) (simp add: Let_def b2_def exchange_def)
      then have r: "perm_scan ipvt n (i + 1) b2 = (i0, bi, b1)" using "1.prems" by simp
      have b2: "b2 = (b[nat (ipvt ! i) := b ! i])[i := b ! nat (ipvt ! i)]"
        by (simp add: b2_def exchange_def Let_def)
      have le: "i + 1 \<le> n" using True by simp
      have ih: "b1 = fold (exchange ipvt) [i + 1..<i0] b2 \<and> i + 1 \<le> i0 \<and> i0 \<le> n \<and>
          (i0 = n \<and> bi = 0 \<or> i0 = Suc bi \<and> i + 1 \<le> bi \<and> bi < n)"
        using "1.IH" [OF True refl refl refl refl z r [unfolded b2] le] by (simp only: b2)
      then have "i < i0" by simp
      then have "[i..<i0] = i # [i + 1..<i0]" by (simp add: upt_conv_Cons)
      then show ?thesis using ih by (auto simp: b2_def)
    qed
  qed
qed

lemma perm_scan_all_zero:
  "i \<le> n \<Longrightarrow> length b = n \<Longrightarrow>
   (\<forall>k. i \<le> k \<and> k < n \<longrightarrow> fold (exchange ipvt) [i..<Suc k] b ! k = 0) \<Longrightarrow>
   perm_scan ipvt n i b = (n, 0, fold (exchange ipvt) [i..<n] b)"
proof (induction ipvt n i b rule: perm_scan.induct)
  case (1 ipvt n i b)
  show ?case
  proof (cases "i < n")
    case False
    then show ?thesis using "1.prems" by (simp add: perm_scan.simps)
  next
    case True
    define b2 where "b2 = exchange ipvt i b"
    have "fold (exchange ipvt) [i..<Suc i] b ! i = 0" using "1.prems"(3) True by blast
    then have "b2 ! i = 0" by (simp add: b2_def)
    then have z: "b ! nat (ipvt ! i) = 0"
      using True "1.prems"(2) by (simp add: b2_def exchange_def Let_def)
    then have eq: "perm_scan ipvt n i b = perm_scan ipvt n (i + 1) b2"
      using True by (subst perm_scan.simps) (simp add: Let_def b2_def exchange_def)
    have hyp: "\<forall>k. i + 1 \<le> k \<and> k < n \<longrightarrow> fold (exchange ipvt) [i + 1..<Suc k] b2 ! k = 0"
    proof (intro allI impI)
      fix k assume k: "i + 1 \<le> k \<and> k < n"
      then have "[i..<Suc k] = i # [i + 1..<Suc k]" by (simp add: upt_conv_Cons del: upt_Suc)
      then have "fold (exchange ipvt) [i..<Suc k] b = fold (exchange ipvt) [i + 1..<Suc k] b2"
        by (simp add: b2_def del: upt_Suc)
      moreover have "fold (exchange ipvt) [i..<Suc k] b ! k = 0" using "1.prems"(3) k by simp
      ultimately show "fold (exchange ipvt) [i + 1..<Suc k] b2 ! k = 0" by (simp only:)
    qed
    have b2: "b2 = (b[nat (ipvt ! i) := b ! i])[i := b ! nat (ipvt ! i)]"
      by (simp add: b2_def exchange_def Let_def)
    have le: "i + 1 \<le> n" using True by simp
    have l2: "length b2 = n" using "1.prems"(2) by (simp add: b2_def)
    have z': "\<not> b ! nat (ipvt ! i) \<noteq> 0" using z by simp
    have "perm_scan ipvt n (i + 1) b2 = (n, 0, fold (exchange ipvt) [i + 1..<n] b2)"
      using "1.IH" [OF True refl refl refl refl z' le l2 [unfolded b2] hyp [unfolded b2]]
      by (simp only: b2)
    moreover have "[i..<n] = i # [i + 1..<n]" using True by (simp add: upt_conv_Cons)
    ultimately show ?thesis using eq by (simp add: b2_def)
  qed
qed

lemma forward_step_exchange:
  assumes "i < length b"
  shows "forward_step a n ipvt bi i b = subtract_row a n bi i (exchange ipvt i b)"
proof -
  define row where "row = nat (ipvt ! i)"
  define b1 where "b1 = b[row := b ! i]"
  have e: "exchange ipvt i b = b1[i := b ! row]" by (simp add: exchange_def Let_def row_def b1_def)
  have i: "i < length b1" using assms by (simp add: b1_def)
  have "fold (\<lambda>j tot. tot - a ! (i * n + j) * b1[i := b ! row] ! j) [bi..<i] q
      = fold (\<lambda>j tot. tot - a ! (i * n + j) * b1 ! j) [bi..<i] q" for q
    by (rule fold_cong) auto
  then show ?thesis using i
    by (simp add: forward_step_def subtract_row_def e Let_def row_def [symmetric] b1_def [symmetric])
qed

lemma length_subtract_row [simp]: "length (subtract_row a n bi i b) = length b"
  by (simp add: subtract_row_def)

lemma length_forward_step [simp]: "length (forward_step a n ipvt bi i b) = length b"
  by (simp add: forward_step_def Let_def)

lemma forward_subst_spec:
  assumes "length b = n" "i0 \<le> n"
  shows "forward_subst a n ipvt bi i0 (fold (exchange ipvt) [0..<i0] b) = forward_spec a n ipvt bi i0 b"
proof -
  let ?f = "\<lambda>i b. if i0 \<le> i then subtract_row a n bi i (exchange ipvt i b) else exchange ipvt i b"
  have "[0..<i0 + (n - i0)] = [0..<i0] @ [i0..<i0 + (n - i0)]"
    by (rule upt_add_eq_append) simp
  then have split: "[0..<n] = [0..<i0] @ [i0..<n]" using assms(2) by simp
  have 1: "fold ?f [0..<i0] b = fold (exchange ipvt) [0..<i0] b"
    by (rule fold_cong) auto
  have 2: "fold ?f [i0..<n] c = fold (forward_step a n ipvt bi) [i0..<n] c" if "length c = n" for c
  proof -
    have "length (fold (forward_step a n ipvt bi) [i0..<m] c) = n \<and>
          fold ?f [i0..<m] c = fold (forward_step a n ipvt bi) [i0..<m] c" if "i0 \<le> m" "m \<le> n" for m
      using that
    proof (induction m)
      case 0
      then show ?case using \<open>length c = n\<close> by simp
    next
      case (Suc m)
      show ?case
      proof (cases "i0 = Suc m")
        case True
        then show ?thesis using \<open>length c = n\<close> by simp
      next
        case False
        then have le: "i0 \<le> m" "m \<le> n" "m < n" using Suc.prems by simp_all
        then show ?thesis using Suc.IH [OF le(1,2)] by (simp add: forward_step_exchange)
      qed
    qed
    then show ?thesis using assms(2) by blast
  qed
  show ?thesis
    unfolding forward_spec_def forward_subst_def
    by (subst split) (simp add: 1 2 assms(1))
qed

text \<open>
  C8. The permutation scan and the forward substitution together perform, for every
  index \<open>i\<close> in \<open>[0, n)\<close> in order, exactly one exchange of \<open>b[i]\<close> and \<open>b[ipvt[i]]\<close>: the
  state after both loops is \<open>forward_spec\<close>, one exchange per index, with the subtraction
  of the sum over \<open>[bi, i)\<close> added from the row \<open>i0\<close> where the scan stopped. The scan
  stops either at the end (\<open>i0 = n\<close>, \<open>bi = 0\<close>) or right after the row \<open>bi\<close> of the first
  nonzero swapped-in value (\<open>i0 = bi + 1\<close>). When every swapped-in value is zero, the
  scan runs to the end with \<open>bi = 0\<close> and has performed all \<open>n\<close> exchanges.
\<close>

theorem all_exchanges_performed:
  fixes a :: "'a::{zero,minus,times,inverse} list"
  assumes "length b = n" "length ipvt = n" "\<forall>i<n. 0 \<le> ipvt ! i \<and> ipvt ! i < int n"
    "perm_scan ipvt n 0 b = (i0, bi, b1)"
  shows "b1 = fold (exchange ipvt) [0..<i0] b \<and>
         (i0 = n \<and> bi = 0 \<or> i0 = Suc bi \<and> bi < n) \<and>
         forward_subst a n ipvt bi i0 b1 = forward_spec a n ipvt bi i0 b \<and>
         lu_solve a n ipvt b = back_subst a n (forward_spec a n ipvt bi i0 b) \<and>
         ((\<forall>i<n. fold (exchange ipvt) [0..<Suc i] b ! i = 0) \<longrightarrow>
            i0 = n \<and> bi = 0 \<and> b1 = fold (exchange ipvt) [0..<n] b \<and>
            forward_subst a n ipvt bi i0 b1 = fold (exchange ipvt) [0..<n] b)"
proof -
  have sp: "b1 = fold (exchange ipvt) [0..<i0] b \<and> 0 \<le> i0 \<and> i0 \<le> n \<and>
      (i0 = n \<and> bi = 0 \<or> i0 = Suc bi \<and> 0 \<le> bi \<and> bi < n)"
    by (rule perm_scan_spec [OF assms(4)]) simp
  have fw: "forward_subst a n ipvt bi i0 b1 = forward_spec a n ipvt bi i0 b"
    using forward_subst_spec [OF assms(1), of i0 a ipvt bi] sp by simp
  have solve: "lu_solve a n ipvt b = back_subst a n (forward_spec a n ipvt bi i0 b)"
    using fw by (simp add: lu_solve_def assms(4))
  have zero: "i0 = n \<and> bi = 0 \<and> b1 = fold (exchange ipvt) [0..<n] b \<and>
            forward_subst a n ipvt bi i0 b1 = fold (exchange ipvt) [0..<n] b"
    if "\<forall>i<n. fold (exchange ipvt) [0..<Suc i] b ! i = 0"
  proof -
    have "perm_scan ipvt n 0 b = (n, 0, fold (exchange ipvt) [0..<n] b)"
      using perm_scan_all_zero [of 0 n b ipvt] that assms(1) by simp
    then have "i0 = n" "bi = 0" "b1 = fold (exchange ipvt) [0..<n] b" using assms(4) by simp_all
    then show ?thesis by (simp add: forward_subst_def)
  qed
  show ?thesis using sp fw solve zero by blast
qed

theorem all_exchanges_performed_witness:
  "perm_scan [1, 2, 2] 3 0 [0, 0, 5 :: rat] = (2, 1, [0, 5, 0]) \<and>
   [0, 5, 0 :: rat] = fold (exchange [1, 2, 2]) [0..<2] [0, 0, 5] \<and>
   forward_subst [1, 0, 0, 2, 1, 0, 3, 4, 1 :: rat] 3 [1, 2, 2] 1 2 [0, 5, 0]
     = forward_spec [1, 0, 0, 2, 1, 0, 3, 4, 1] 3 [1, 2, 2] 1 2 [0, 0, 5] \<and>
   forward_spec [1, 0, 0, 2, 1, 0, 3, 4, 1 :: rat] 3 [1, 2, 2] 1 2 [0, 0, 5] = [0, 5, - 20]"
proof -
  have p: "perm_scan [1, 2, 2] 3 0 [0, 0, 5 :: rat] = (2, 1, [0, 5, 0])" by code_simp
  have r: "\<forall>i<3. 0 \<le> [1, 2, 2 :: int] ! i \<and> [1, 2, 2] ! i < int 3"
    by (simp add: less_Suc_eq numeral_3_eq_3)
  have v: "forward_spec [1, 0, 0, 2, 1, 0, 3, 4, 1 :: rat] 3 [1, 2, 2] 1 2 [0, 0, 5] = [0, 5, - 20]"
    by code_simp
  have l: "length [0, 0, 5 :: rat] = 3" "length [1, 2, 2 :: int] = 3" by simp_all
  show ?thesis
    using all_exchanges_performed [OF l r p, of "[1, 0, 0, 2, 1, 0, 3, 4, 1]"] p v
    by blast
qed

section \<open>The SIMD build computes what the scalar build computes\<close>

lemma sum_two_more:
  fixes f :: "nat \<Rightarrow> 'a::ab_group_add"
  assumes "k + 2 \<le> k'"
  shows "(\<Sum>x = k..<k'. f x) = f k + f (k + 1) + (\<Sum>x = k + 2..<k'. f x)"
proof -
  have "(\<Sum>x = k..<k'. f x) = f k + (\<Sum>x = Suc k..<k'. f x)"
    using assms by (simp add: sum.atLeast_Suc_lessThan)
  also have "(\<Sum>x = Suc k..<k'. f x) = f (Suc k) + (\<Sum>x = Suc (Suc k)..<k'. f x)"
    using assms by (simp add: sum.atLeast_Suc_lessThan)
  finally show ?thesis by (simp add: add.assoc)
qed

lemma lower_pairs_sum:
  fixes a :: "'a::comm_ring list"
  shows "lower_pairs a n i j k2 s = (k', s') \<Longrightarrow>
    k2 \<le> k' \<and>
    fst s' + snd s' = fst s + snd s + (\<Sum>k = k2..<k'. a ! (i * n + k) * a ! (k * n + j))"
proof (induction a n i j k2 s rule: lower_pairs.induct)
  case (1 a n i j k2 s)
  show ?case
  proof (cases "k2 + 1 < j")
    case False
    then show ?thesis using "1.prems" by (simp add: lower_pairs.simps)
  next
    case True
    define s2 where "s2 = wasm_f64x2_add s (wasm_f64x2_mul
        (wasm_f64x2_make (a ! (i * n + k2)) (a ! (i * n + k2 + 1)))
        (wasm_f64x2_make (a ! (k2 * n + j)) (a ! ((k2 + 1) * n + j))))"
    have rec: "lower_pairs a n i j (k2 + 2) s2 = (k', s')"
      using "1.prems" True by (subst (asm) lower_pairs.simps) (simp add: Let_def s2_def)
    have ih: "k2 + 2 \<le> k' \<and>
        fst s' + snd s' = fst s2 + snd s2 + (\<Sum>k = k2 + 2..<k'. a ! (i * n + k) * a ! (k * n + j))"
      using "1.IH" [OF True refl refl refl refl refl refl refl rec [unfolded s2_def]]
      by (simp only: s2_def)
    have s2: "fst s2 + snd s2 = fst s + snd s +
        (a ! (i * n + k2) * a ! (k2 * n + j) + a ! (i * n + (k2 + 1)) * a ! ((k2 + 1) * n + j))"
      by (simp add: s2_def wasm_f64x2_add_def wasm_f64x2_mul_def wasm_f64x2_make_def
          add.assoc algebra_simps)
    show ?thesis
      using ih s2 sum_two_more [of k2 k' "\<lambda>k. a ! (i * n + k) * a ! (k * n + j)"]
      by (simp add: add.assoc)
  qed
qed

lemma lower_pairs_le: "lower_pairs a n i j k2 s = (k', s') \<Longrightarrow> k2 \<le> j \<Longrightarrow> k' \<le> j"
proof (induction a n i j k2 s rule: lower_pairs.induct)
  case (1 a n i j k2 s)
  show ?case
  proof (cases "k2 + 1 < j")
    case False
    then show ?thesis using "1.prems" by (simp add: lower_pairs.simps)
  next
    case True
    have rec: "lower_pairs a n i j (k2 + 2) (wasm_f64x2_add s (wasm_f64x2_mul
        (wasm_f64x2_make (a ! (i * n + k2)) (a ! (i * n + k2 + 1)))
        (wasm_f64x2_make (a ! (k2 * n + j)) (a ! ((k2 + 1) * n + j))))) = (k', s')"
      using "1.prems" True by (subst (asm) lower_pairs.simps) (simp add: Let_def)
    show ?thesis
      using "1.IH" [OF True refl refl refl refl refl refl refl rec] True by simp
  qed
qed

lemma reduce_simd_eq:
  fixes a :: "'a::comm_ring list"
  shows "reduce_simd a n i j q = reduce a n i j j q"
proof (cases "j > 1")
  case False
  then show ?thesis by (simp add: reduce_simd_def reduce_def)
next
  case True
  obtain k' s' where lp: "lower_pairs a n i j 0 (wasm_f64x2_splat 0) = (k', s')"
    by (cases "lower_pairs a n i j 0 (wasm_f64x2_splat (0::'a))")
  let ?f = "\<lambda>k. a ! (i * n + k) * a ! (k * n + j)"
  have s: "fst s' + snd s' = (\<Sum>k = 0..<k'. ?f k)"
    using lower_pairs_sum [OF lp] by (simp add: wasm_f64x2_splat_def)
  have le: "k' \<le> j" using lower_pairs_le [OF lp] by simp
  have "(\<Sum>k = 0..<j. ?f k) = (\<Sum>k = 0..<k'. ?f k) + (\<Sum>k = k'..<j. ?f k)"
    using le by (simp add: sum.atLeastLessThan_concat)
  then have "q - (fst s' + snd s') - (\<Sum>k = k'..<j. ?f k) = q - (\<Sum>k<j. ?f k)"
    using s by (simp add: lessThan_atLeast0 algebra_simps)
  then show ?thesis
    using True
    by (simp add: reduce_simd_def lp Let_def wasm_f64x2_extract_lane_def fold_sub_sum reduce_sum)
qed

lemma upper_part_simd_eq: "upper_part_simd a n j = upper_part a n j"
  unfolding upper_part_simd_def upper_part_def
  by (rule fold_cong) (auto simp: Let_def reduce_def fun_eq_iff)

lemma lower_part_simd_eq:
  fixes a :: "'a::linordered_field list"
  shows "lower_part_simd a n j = lower_part a n j"
proof -
  have "lower_step_simd n j = (lower_step n j :: _ \<Rightarrow> 'a list \<times> 'a \<times> int \<Rightarrow> _)"
    by (auto simp: fun_eq_iff lower_step_simd_def lower_step_def reduce_simd_eq)
  then show ?thesis by (simp add: lower_part_simd_def lower_part_def)
qed

subsection \<open>The paired row exchange\<close>

lemma swap_pairs_inv:
  "swap_pairs s row1 row2 n i = (i', s') \<Longrightarrow> row1 = r * n \<Longrightarrow> row2 = j * n \<Longrightarrow>
   length a = n * n \<Longrightarrow> r < n \<Longrightarrow> j < n \<Longrightarrow> r \<noteq> j \<Longrightarrow>
   swap_inv a n r j i s \<Longrightarrow> i \<le> n \<Longrightarrow>
   swap_inv a n r j i' s' \<and> i' \<le> n \<and> \<not> i' + 1 < n"
proof (induction s row1 row2 n i rule: swap_pairs.induct)
  case (1 s row1 row2 n i)
  note len = "1.prems"(4) and ne = "1.prems"(7)
  show ?case
  proof (cases "i + 1 < n")
    case False
    then show ?thesis using "1.prems" by (simp add: swap_pairs.simps)
  next
    case True
    define i1 where "i1 = i + 1"
    define x0 where "x0 = s ! (r * n + i)"
    define x1 where "x1 = s ! (r * n + i1)"
    define y0 where "y0 = s ! (j * n + i)"
    define y1 where "y1 = s ! (j * n + i1)"
    define s1 where "s1 = s[r * n + i := y0]"
    define s2 where "s2 = s1[r * n + i1 := y1]"
    define s3 where "s3 = s2[j * n + i := x0]"
    define s4 where "s4 = s3[j * n + i1 := x1]"
    have i: "i < n" "i1 < n" using True by (simp_all add: i1_def)
    have i1: "i \<noteq> i1" "\<not> i1 < i" by (simp_all add: i1_def)
    have rel: "c < i + 2 \<longleftrightarrow> c < i \<or> c = i \<or> c = i1" for c by (auto simp: i1_def)
    have rn: "r < n" "j < n" using "1.prems" by simp_all
    have inv: "swap_inv a n r j i s" using "1.prems" by simp
    have ls: "length s = n * n" using inv "1.prems" len by (simp add: swap_inv_def)
    have ls1: "length s1 = n * n" and ls2: "length s2 = n * n" and ls3: "length s3 = n * n"
      using ls by (simp_all add: s1_def s2_def s3_def)
    have ent: "\<And>p c. p < n \<Longrightarrow> c < n \<Longrightarrow> s ! (p * n + c) =
        a ! ((if c < i then (if p = j then r else if p = r then j else p) else p) * n + c)"
      using inv by (simp add: swap_inv_def)
    have x0: "x0 = a ! (r * n + i)" using ent [of r i] rn i by (simp add: x0_def)
    have x1: "x1 = a ! (r * n + i1)" using ent [of r i1] rn i i1 by (simp add: x1_def)
    have y0: "y0 = a ! (j * n + i)" using ent [of j i] rn i by (simp add: y0_def)
    have y1: "y1 = a ! (j * n + i1)" using ent [of j i1] rn i i1 by (simp add: y1_def)
    have e1: "\<And>p c. c < n \<Longrightarrow> s1 ! (p * n + c) = (if r = p \<and> i = c then y0 else s ! (p * n + c))"
      using nth_upd_idx [OF rn(1) i(1) _ ls] by (simp add: s1_def)
    have e2: "\<And>p c. c < n \<Longrightarrow> s2 ! (p * n + c) = (if r = p \<and> i1 = c then y1 else s1 ! (p * n + c))"
      using nth_upd_idx [OF rn(1) i(2) _ ls1] by (simp add: s2_def)
    have e3: "\<And>p c. c < n \<Longrightarrow> s3 ! (p * n + c) = (if j = p \<and> i = c then x0 else s2 ! (p * n + c))"
      using nth_upd_idx [OF rn(2) i(1) _ ls2] by (simp add: s3_def)
    have e4: "\<And>p c. c < n \<Longrightarrow> s4 ! (p * n + c) = (if j = p \<and> i1 = c then x1 else s3 ! (p * n + c))"
      using nth_upd_idx [OF rn(2) i(2) _ ls3] by (simp add: s4_def)
    have "\<forall>p<n. \<forall>c<n. s4 ! (p * n + c) =
        a ! ((if c < i \<or> c = i \<or> c = i1 then (if p = j then r else if p = r then j else p) else p) * n + c)"
    proof (intro allI impI)
      fix p c assume p: "p < n" and c: "c < n"
      have old: "s ! (p * n + c) =
          a ! ((if c < i then (if p = j then r else if p = r then j else p) else p) * n + c)"
        using ent p c by simp
      consider "c = i" | "c = i1" | "c \<noteq> i \<and> c \<noteq> i1" by blast
      then show "s4 ! (p * n + c) =
        a ! ((if c < i \<or> c = i \<or> c = i1 then (if p = j then r else if p = r then j else p) else p) * n + c)"
      proof cases
        case 1
        then show ?thesis using ne old c i1 by (auto simp: e1 e2 e3 e4 x0 y0)
      next
        case 2
        then show ?thesis using ne old c i1 by (auto simp: e1 e2 e3 e4 x1 y1)
      next
        case 3
        then show ?thesis using old c by (auto simp: e1 e2 e3 e4)
      qed
    qed
    then have "\<forall>p<n. \<forall>c<n. s4 ! (p * n + c) =
        a ! ((if c < i + 2 then (if p = j then r else if p = r then j else p) else p) * n + c)"
      by (simp only: rel)
    moreover have "length s4 = length a" using ls3 len by (simp add: s4_def)
    ultimately have inv4: "swap_inv a n r j (i + 2) s4" by (simp add: swap_inv_def)
    have s4: "s4 = wasm_v128_store (wasm_v128_store s (r * n + i) (wasm_v128_load s (j * n + i)))
        (j * n + i) (wasm_v128_load s (r * n + i))"
      by (simp add: s4_def s3_def s2_def s1_def x0_def x1_def y0_def y1_def i1_def
          wasm_v128_store_def wasm_v128_load_def add.assoc)
    have s4': "s4 = wasm_v128_store (wasm_v128_store s (row1 + i) (wasm_v128_load s (row2 + i)))
        (row2 + i) (wasm_v128_load s (row1 + i))"
      using s4 "1.prems"(2,3) by simp
    have rec: "swap_pairs s4 row1 row2 n (i + 2) = (i', s')"
      using "1.prems"(1) True by (subst (asm) swap_pairs.simps) (simp add: Let_def s4')
    have le: "i + 2 \<le> n" using True by simp
    show ?thesis
      using "1.IH" [OF True refl refl refl refl rec [unfolded s4'] "1.prems"(2,3) len rn ne
          inv4 [unfolded s4'] le] .
  qed
qed

lemma swap_rows_simd_eq:
  assumes len: "length a = n * n" and r: "r < n" and j: "j < n" and ne: "r \<noteq> j"
  shows "swap_rows_simd a (r * n) (j * n) n = swap_rows a n r j"
proof -
  obtain i' s' where sp: "swap_pairs a (r * n) (j * n) n 0 = (i', s')"
    by (cases "swap_pairs a (r * n) (j * n) n 0")
  have inv: "swap_inv a n r j i' s'" and le: "i' \<le> n" and stop: "\<not> i' + 1 < n"
    using swap_pairs_inv [OF sp refl refl len r j ne] by (simp_all add: swap_inv_def)
  have ls: "length s' = n * n" using inv len by (simp add: swap_inv_def)
  have fin: "swap_inv a n r j n (swap_rows_simd a (r * n) (j * n) n)"
  proof (cases "i' < n")
    case False
    then have "i' = n" using le by simp
    then show ?thesis using inv by (simp add: swap_rows_simd_def sp)
  next
    case True
    then have i': "Suc i' = n" using stop by simp
    define x where "x = s' ! (r * n + i')"
    define y where "y = s' ! (j * n + i')"
    define s1 where "s1 = s'[r * n + i' := y]"
    define s2 where "s2 = s1[j * n + i' := x]"
    have ls1: "length s1 = n * n" using ls by (simp add: s1_def)
    have x: "x = a ! (r * n + i')" using inv r True by (simp add: swap_inv_def x_def)
    have y: "y = a ! (j * n + i')" using inv j True by (simp add: swap_inv_def y_def)
    have e1: "\<And>p c. c < n \<Longrightarrow> s1 ! (p * n + c) = (if r = p \<and> i' = c then y else s' ! (p * n + c))"
      using nth_upd_idx [OF r True _ ls] by (simp add: s1_def)
    have e2: "\<And>p c. c < n \<Longrightarrow> s2 ! (p * n + c) = (if j = p \<and> i' = c then x else s1 ! (p * n + c))"
      using nth_upd_idx [OF j True _ ls1] by (simp add: s2_def)
    have "\<forall>p<n. \<forall>c<n. s2 ! (p * n + c) =
        a ! ((if c < n then (if p = j then r else if p = r then j else p) else p) * n + c)"
      using inv i' by (auto simp: e1 e2 x y swap_inv_def less_Suc_eq)
    moreover have "length s2 = length a" using ls1 len by (simp add: s2_def)
    ultimately have "swap_inv a n r j n s2" by (simp add: swap_inv_def)
    moreover have "swap_rows_simd a (r * n) (j * n) n = s2"
      using True by (simp add: swap_rows_simd_def sp Let_def s2_def s1_def x_def y_def)
    ultimately show ?thesis by simp
  qed
  have sc: "swap_inv a n r j n (swap_rows a n r j)" by (rule swap_rows_inv [OF len r j])
  show ?thesis
    by (rule list_eq_entries [where n = n])
       (use fin sc len in \<open>simp_all add: swap_inv_def\<close>)
qed

subsection \<open>The paired substitution sums\<close>

lemma row_pairs_sum:
  fixes a :: "'a::comm_ring list"
  shows "row_pairs a n i b hi jj s = (k', s') \<Longrightarrow>
    jj \<le> k' \<and> (jj \<le> hi \<longrightarrow> k' \<le> hi) \<and>
    fst s' + snd s' = fst s + snd s + (\<Sum>k = jj..<k'. a ! (i * n + k) * b ! k)"
proof (induction a n i b hi jj s rule: row_pairs.induct)
  case (1 a n i b hi jj s)
  show ?case
  proof (cases "jj + 1 < hi")
    case False
    then show ?thesis using "1.prems" by (simp add: row_pairs.simps)
  next
    case True
    define s2 where "s2 = wasm_f64x2_add s (wasm_f64x2_mul
        (wasm_f64x2_make (a ! (i * n + jj)) (a ! (i * n + jj + 1))) (wasm_v128_load b jj))"
    have rec: "row_pairs a n i b hi (jj + 2) s2 = (k', s')"
      using "1.prems" True by (subst (asm) row_pairs.simps) (simp add: Let_def s2_def)
    have ih: "jj + 2 \<le> k' \<and> (jj + 2 \<le> hi \<longrightarrow> k' \<le> hi) \<and>
        fst s' + snd s' = fst s2 + snd s2 + (\<Sum>k = jj + 2..<k'. a ! (i * n + k) * b ! k)"
      unfolding s2_def by (rule "1.IH" [OF True refl refl refl rec [unfolded s2_def]])
    have s2: "fst s2 + snd s2 = fst s + snd s +
        (a ! (i * n + jj) * b ! jj + a ! (i * n + (jj + 1)) * b ! (jj + 1))"
      by (simp add: s2_def wasm_f64x2_add_def wasm_f64x2_mul_def wasm_f64x2_make_def
          wasm_v128_load_def add.assoc algebra_simps)
    show ?thesis
      using ih s2 True sum_two_more [of jj k' "\<lambda>k. a ! (i * n + k) * b ! k"]
      by (simp add: add.assoc)
  qed
qed

lemma row_sum_simd_eq:
  fixes a :: "'a::comm_ring list"
  assumes "lo \<le> hi"
  shows "row_sum_simd a n i b lo hi tot = fold (\<lambda>j tot. tot - a ! (i * n + j) * b ! j) [lo..<hi] tot"
proof -
  obtain k' s' where rp: "row_pairs a n i b hi lo (wasm_f64x2_splat 0) = (k', s')"
    by (cases "row_pairs a n i b hi lo (wasm_f64x2_splat (0::'a))")
  let ?f = "\<lambda>k. a ! (i * n + k) * b ! k"
  have s: "fst s' + snd s' = (\<Sum>k = lo..<k'. ?f k)" and le: "lo \<le> k'" "k' \<le> hi"
    using row_pairs_sum [OF rp] assms by (simp_all add: wasm_f64x2_splat_def)
  have "(\<Sum>k = lo..<hi. ?f k) = (\<Sum>k = lo..<k'. ?f k) + (\<Sum>k = k'..<hi. ?f k)"
    using le by (simp add: sum.atLeastLessThan_concat)
  then have "tot - (fst s' + snd s') - (\<Sum>k = k'..<hi. ?f k) = tot - (\<Sum>k = lo..<hi. ?f k)"
    using s by (simp add: algebra_simps)
  then show ?thesis
    by (simp add: row_sum_simd_def rp Let_def wasm_f64x2_extract_lane_def fold_sub_sum)
qed

lemma forward_step_simd_eq:
  fixes a :: "'a::comm_ring list"
  shows "forward_step_simd a n ipvt bi i b = forward_step a n ipvt bi i b"
proof (cases "int i - int bi \<ge> 2")
  case True
  then have "bi \<le> i" by simp
  then show ?thesis using True
    by (simp add: forward_step_simd_def forward_step_def Let_def row_sum_simd_eq)
next
  case False
  then show ?thesis by (simp add: forward_step_simd_def forward_step_def Let_def)
qed

lemma back_step_simd_eq:
  fixes a :: "'a::field list"
  shows "back_step_simd a n i b = back_step a n i b"
proof (cases "int n - 1 - int i \<ge> 2")
  case True
  then have "i + 1 \<le> n" by simp
  then show ?thesis using True
    by (simp add: back_step_simd_def back_step_def Let_def row_sum_simd_eq)
next
  case False
  then show ?thesis by (simp add: back_step_simd_def back_step_def Let_def)
qed

lemma lu_solve_simd_eq:
  fixes a :: "'a::field list"
  shows "lu_solve_simd a n ipvt b = lu_solve a n ipvt b"
proof -
  have 1: "forward_step_simd a n ipvt bi = forward_step a n ipvt bi" for bi
    by (simp add: fun_eq_iff forward_step_simd_eq)
  have 2: "back_step_simd a n = back_step a n"
    by (simp add: fun_eq_iff back_step_simd_eq)
  show ?thesis
    by (simp add: lu_solve_simd_def lu_solve_def 1 2 back_subst_def forward_subst_def)
qed

subsection \<open>The factorization\<close>

lemma lu_column_simd_eq:
  fixes a :: "'a::linordered_field list"
  assumes len: "length a = n * n" and j: "j < n"
  shows "lu_column_simd n j a ipvt = lu_column n j a ipvt"
proof -
  obtain a2 lg lr where lp: "lower_part (upper_part a n j) n j = (a2, lg, lr)"
    by (cases "lower_part (upper_part a n j) n j")
  have l1: "length (upper_part a n j) = n * n" by (rule upper_part_length [OF len j])
  have l2: "length a2 = n * n" using lower_part_length [OF l1 j] lp by simp
  have rng: "lr = - 1 \<or> (int j \<le> lr \<and> lr < int n)"
    by (rule lower_part_row_range [OF l1 j lp])
  have "swap_rows_simd a2 (nat lr * n) (j * n) n = swap_rows a2 n (nat lr) j"
    if "int j \<noteq> lr" "lr \<noteq> - 1"
  proof -
    have "nat lr < n" "nat lr \<noteq> j" using that rng by auto
    then show ?thesis using swap_rows_simd_eq [OF l2 _ j] by simp
  qed
  then show ?thesis
    by (simp add: lu_column_simd_def lu_column_def upper_part_simd_eq lower_part_simd_eq lp)
qed

lemma lu_columns_simd_eq:
  fixes a :: "'a::linordered_field list"
  shows "\<forall>j\<in>set js. j < n \<Longrightarrow> length a = n * n \<Longrightarrow>
         lu_columns_simd n js a ipvt = lu_columns n js a ipvt"
proof (induction js arbitrary: a ipvt)
  case Nil
  then show ?case by simp
next
  case (Cons j js)
  have j: "j < n" using Cons.prems by simp
  have c: "lu_column_simd n j a ipvt = lu_column n j a ipvt"
    by (rule lu_column_simd_eq [OF Cons.prems(2) j])
  show ?case
  proof (cases "lu_column n j a ipvt")
    case (Inl x)
    then show ?thesis using c by simp
  next
    case (Inr y)
    obtain a' ipvt' where y: "y = (a', ipvt')" by (cases y)
    have "length a' = n * n"
      using lu_column_Inr_entries [OF Cons.prems(2) j Inr [unfolded y]] by blast
    then have "lu_columns_simd n js a' ipvt' = lu_columns n js a' ipvt'"
      using Cons.IH Cons.prems(1) by simp
    then show ?thesis using c Inr y by simp
  qed
qed

lemma lu_factor_simd_eq:
  fixes a :: "'a::linordered_field list"
  assumes "length a = n * n"
  shows "lu_factor_simd a n ipvt = lu_factor a n ipvt"
proof -
  have "lu_columns_simd n [0..<n] a ipvt = lu_columns n [0..<n] a ipvt"
    by (rule lu_columns_simd_eq [OF _ assms]) simp
  then show ?thesis
    by (simp add: lu_factor_simd_def lu_factor_exit_simd_def lu_factor_def lu_factor_exit_def
        split: option.splits)
qed

text \<open>
  C2, as the code has it. On doubles the two builds can disagree, and not by a rounding
  error only. For the matrix with the rows \<open>(2, 0, 2)\<close>, \<open>(0, 2, 2\<^sup>-\<^sup>5\<^sup>2)\<close> and \<open>(1, 1, 1)\<close>
  no rows are exchanged, and the last diagonal entry is reduced by the products \<open>1\<close> and
  \<open>2\<^sup>-\<^sup>5\<^sup>3\<close>. The scalar build subtracts them one after the other,
  \<open>(1 - 1) - 2\<^sup>-\<^sup>5\<^sup>3 = -2\<^sup>-\<^sup>5\<^sup>3\<close>, and returns -1; the SIMD build subtracts the sum of the two
  lanes, and \<open>1 + 2\<^sup>-\<^sup>5\<^sup>3\<close> rounds to \<open>1\<close>, so the entry is \<open>0\<close> and it returns 2.
\<close>

theorem simd_differs_on_doubles:
  "lu_factor (map Fin [2, 0, 2, 0, 2, 1 / 4503599627370496, 1, 1, 1]) 3 [0, 0, 0]
     = (- 1, [Fin 2, Fin 0, Fin 2, Fin 0, Fin 2, Fin (1 / 4503599627370496),
              Fin (1 / 2), Fin (1 / 2), Fin (- 1 / 9007199254740992)], [0, 1, 2]) \<and>
   lu_factor_simd (map Fin [2, 0, 2, 0, 2, 1 / 4503599627370496, 1, 1, 1]) 3 [0, 0, 0]
     = (2, [Fin 2, Fin 0, Fin 2, Fin 0, Fin 2, Fin (1 / 4503599627370496),
            Fin (1 / 2), Fin (1 / 2), Fin 0], [0, 1, 2])"
  by code_simp

text \<open>
  C2, amended. With exact arithmetic the SIMD build and the scalar build agree on
  identical inputs, for every dimension \<open>n\<close> (even or odd): \<open>lu_factor\<close> gives the same
  return value, the same final matrix and the same pivot vector, and \<open>lu_solve\<close> gives
  the same solution vector. The two builds differ only in the order in which the products
  of a sum are added, and in moving two elements at a time.
\<close>

theorem simd_agrees_with_scalar:
  fixes a f b :: "'a::linordered_field list"
  assumes "length a = n * n"
  shows "lu_factor_simd a n ipvt = lu_factor a n ipvt \<and>
         lu_solve_simd f n p b = lu_solve f n p b"
  using assms by (simp add: lu_factor_simd_eq lu_solve_simd_eq)

theorem simd_agrees_with_scalar_witness:
  "lu_factor_simd [2, 1, 1, 4, 3, 3, 8, 7, 9 :: rat] 3 [0, 0, 0]
     = (- 1, [8, 7, 9, 1 / 4, - (3 / 4), - (5 / 4), 1 / 2, 2 / 3, - (2 / 3)], [2, 2, 2]) \<and>
   lu_solve_simd [8, 7, 9, 1 / 4, - (3 / 4), - (5 / 4), 1 / 2, 2 / 3, - (2 / 3) :: rat] 3 [2, 2, 2] [1, 2, 3]
     = [1 / 2, 1 / 2, - (1 / 2)]"
proof -
  have f: "lu_factor [2, 1, 1, 4, 3, 3, 8, 7, 9 :: rat] 3 [0, 0, 0]
     = (- 1, [8, 7, 9, 1 / 4, - (3 / 4), - (5 / 4), 1 / 2, 2 / 3, - (2 / 3)], [2, 2, 2])"
    by code_simp
  have s: "lu_solve [8, 7, 9, 1 / 4, - (3 / 4), - (5 / 4), 1 / 2, 2 / 3, - (2 / 3) :: rat] 3 [2, 2, 2] [1, 2, 3]
     = [1 / 2, 1 / 2, - (1 / 2)]"
    by code_simp
  have l: "length [2, 1, 1, 4, 3, 3, 8, 7, 9 :: rat] = 3 * 3" by simp
  show ?thesis
    using simd_agrees_with_scalar [OF l, of "[0, 0, 0]"
        "[8, 7, 9, 1 / 4, - (3 / 4), - (5 / 4), 1 / 2, 2 / 3, - (2 / 3)]" "[2, 2, 2]" "[1, 2, 3]"] f s
    by (simp only:)
qed

section \<open>The factorization invariant\<close>

lemma lu_inv_init: "length a = n * n \<Longrightarrow> lu_inv a n 0 a"
  by (simp add: lu_inv_def)

lemma lu_inv_step:
  fixes a :: "'a::linordered_field list"
  assumes inv: "lu_inv B n j a" and j: "j < n"
    and col: "lu_column n j a ipvt = Inr (a', ipvt')"
  shows "\<exists>r. j \<le> r \<and> r < n \<and> ipvt' = ipvt[j := int r] \<and> lu_inv (swap_rows B n r j) n (Suc j) a'"
proof -
  have len: "length a = n * n" and lB: "length B = n * n" using inv by (simp_all add: lu_inv_def)
  obtain r where r: "j \<le> r" "r < n" and ip: "ipvt' = ipvt[j := int r]"
    and la': "length a' = n * n" and nz: "a' ! (j * n + j) \<noteq> 0"
    and E1: "\<forall>i<n. \<forall>c<n. c \<noteq> j \<longrightarrow>
        a' ! (i * n + c) = a ! ((if i = j then r else if i = r then j else i) * n + c)"
    and E2: "\<forall>i<j. a' ! (i * n + j) = reduce a' n i j i (a ! (i * n + j))"
    and E3: "a' ! (j * n + j) = reduce a' n j j j (a ! (r * n + j))"
    and E4: "\<forall>i. j < i \<and> i < n \<longrightarrow> a' ! (i * n + j) =
        reduce a' n i j j (a ! ((if i = r then j else i) * n + j)) * (1 / a' ! (j * n + j))"
    using lu_column_Inr_entries [OF len j col] by blast
  define sg where "sg = (\<lambda>i. if i = j then r else if i = r then j else i)"
  define B' where "B' = swap_rows B n r j"
  have sg_lt: "sg i < n" if "i < n" for i using that r j by (simp add: sg_def)
  have sg_low: "sg i = i" if "i < j" for i using that r by (simp add: sg_def)
  have sg_ge: "j \<le> sg i" if "j \<le> i" for i using that r by (simp add: sg_def)
  have lB': "length B' = n * n" unfolding B'_def by (rule swap_rows_length [OF lB r(2) j])
  have eB: "B' ! (i * n + c) = B ! (sg i * n + c)" if "i < n" "c < n" for i c
    using swap_rows_entries [OF lB r(2) j that] by (simp add: B'_def sg_def)
  have e1: "a' ! (i * n + c) = a ! (sg i * n + c)" if "i < n" "c < n" "c \<noteq> j" for i c
    using E1 that by (simp add: sg_def)
  have I1: "a ! (i * n + c) = B ! (i * n + c)" if "i < n" "c < n" "j \<le> c" for i c
    using inv that by (simp add: lu_inv_def)
  have I2: "B ! (i * n + c) = a ! (i * n + c) + (\<Sum>k<i. a ! (i * n + k) * a ! (k * n + c))"
    if "i < n" "c < j" "i \<le> c" for i c
    using inv that by (simp add: lu_inv_def)
  have I3: "B ! (i * n + c) =
      a ! (i * n + c) * a ! (c * n + c) + (\<Sum>k<c. a ! (i * n + k) * a ! (k * n + c))"
    if "i < n" "c < j" "c < i" for i c
    using inv that by (simp add: lu_inv_def)
  have I4: "a ! (c * n + c) \<noteq> 0" if "c < j" for c using inv that by (simp add: lu_inv_def)
  have G1: "a' ! (i * n + c) = B' ! (i * n + c)" if "i < n" "c < n" "Suc j \<le> c" for i c
    using that sg_lt [OF that(1)] by (simp add: e1 eB I1)
  have G2: "B' ! (i * n + c) = a' ! (i * n + c) + (\<Sum>k<i. a' ! (i * n + k) * a' ! (k * n + c))"
    if "i < n" "c < Suc j" "i \<le> c" for i c
  proof (cases "c = j")
    case False
    then have c: "c < j" "c < n" using that j by simp_all
    then have i: "i < j" "sg i = i" using that sg_low [of i] by simp_all
    have "(\<Sum>k<i. a' ! (i * n + k) * a' ! (k * n + c)) = (\<Sum>k<i. a ! (i * n + k) * a ! (k * n + c))"
    proof (rule sum.cong)
      fix k assume "k \<in> {..<i}"
      then have k: "k < i" "k < j" "k < n" "k \<noteq> j" "sg k = k" using i j sg_low [of k] by simp_all
      show "a' ! (i * n + k) * a' ! (k * n + c) = a ! (i * n + k) * a ! (k * n + c)"
        using e1 [of i k] e1 [of k c] k that c i by simp
    qed simp
    then show ?thesis using e1 [of i c] eB [of i c] I2 [of i c] that c i by simp
  next
    case True
    show ?thesis
    proof (cases "i = j")
      case False
      then have i: "i < j" "sg i = i" using that True sg_low [of i] by simp_all
      have "a' ! (i * n + j) = a ! (i * n + j) - (\<Sum>k<i. a' ! (i * n + k) * a' ! (k * n + j))"
        using E2 i by (simp add: reduce_sum)
      then show ?thesis using eB [of i j] I1 [of i j] True that j i by simp
    next
      case ij: True
      have "a' ! (j * n + j) = a ! (r * n + j) - (\<Sum>k<j. a' ! (j * n + k) * a' ! (k * n + j))"
        using E3 by (simp add: reduce_sum)
      moreover have "sg j = r" by (simp add: sg_def)
      ultimately show ?thesis using eB [of j j] I1 [of r j] True ij j r by simp
    qed
  qed
  have G3: "B' ! (i * n + c) =
      a' ! (i * n + c) * a' ! (c * n + c) + (\<Sum>k<c. a' ! (i * n + k) * a' ! (k * n + c))"
    if "i < n" "c < Suc j" "c < i" for i c
  proof (cases "c = j")
    case False
    then have c: "c < j" "c < n" "sg c = c" using that j sg_low [of c] by simp_all
    have si: "sg i < n" "c < sg i"
      using sg_lt [OF that(1)] sg_low [of i] sg_ge [of i] that c by (cases "i < j"; simp)+
    have "(\<Sum>k<c. a' ! (i * n + k) * a' ! (k * n + c)) = (\<Sum>k<c. a ! (sg i * n + k) * a ! (k * n + c))"
    proof (rule sum.cong)
      fix k assume "k \<in> {..<c}"
      then have k: "k < c" "k < j" "k < n" "k \<noteq> j" "sg k = k" using c j sg_low [of k] by simp_all
      show "a' ! (i * n + k) * a' ! (k * n + c) = a ! (sg i * n + k) * a ! (k * n + c)"
        using e1 [of i k] e1 [of k c] k that c by simp
    qed simp
    then show ?thesis
      using e1 [of i c] e1 [of c c] eB [of i c] I3 [of "sg i" c] that c si by simp
  next
    case True
    then have i: "j < i" "i < n" using that by simp_all
    then have s: "sg i = (if i = r then j else i)" by (simp add: sg_def)
    have "a' ! (i * n + j) * a' ! (j * n + j) = reduce a' n i j j (a ! (sg i * n + j))"
      using E4 i nz s by simp
    then have "a' ! (i * n + j) * a' ! (j * n + j) =
        a ! (sg i * n + j) - (\<Sum>k<j. a' ! (i * n + k) * a' ! (k * n + j))"
      by (simp add: reduce_sum)
    then show ?thesis using eB [of i j] I1 [of "sg i" j] sg_lt [of i] True i j by simp
  qed
  have G4: "a' ! (c * n + c) \<noteq> 0" if "c < Suc j" for c
  proof (cases "c = j")
    case True
    then show ?thesis using nz by simp
  next
    case False
    then have "c < j" using that by simp
    then show ?thesis using e1 [of c c] I4 [of c] sg_low [of c] j by simp
  qed
  have "lu_inv B' n (Suc j) a'"
    using la' lB' G1 G2 G3 G4 by (simp add: lu_inv_def)
  then show ?thesis using r ip by (auto simp: B'_def)
qed

lemma lu_columns_inv:
  fixes a :: "'a::linordered_field list"
  shows "m \<le> n \<Longrightarrow> lu_inv B n m a \<Longrightarrow> length ipvt = n \<Longrightarrow>
   lu_columns n [m..<n] a ipvt = (Success, a', ipvt') \<Longrightarrow>
   lu_inv (permute_rows B n ipvt' m n) n n a' \<and> length ipvt' = n \<and>
   (\<forall>k<m. ipvt' ! k = ipvt ! k) \<and>
   (\<forall>k. m \<le> k \<and> k < n \<longrightarrow> int k \<le> ipvt' ! k \<and> ipvt' ! k < int n)"
proof (induction "n - m" arbitrary: m a ipvt B)
  case 0
  then have "m = n" by simp
  then show ?case using 0 by (simp add: permute_rows_def)
next
  case (Suc d)
  then have m: "m < n" by simp
  have up: "[m..<n] = m # [Suc m..<n]" using m by (simp add: upt_conv_Cons)
  show ?case
  proof (cases "lu_column n m a ipvt")
    case (Inl x)
    obtain e rest where x: "x = (e, rest)" by (cases x)
    have "e \<noteq> Success" using lu_column_Inl_not_Success Inl x by blast
    then show ?thesis using Suc.prems(4) up Inl x by simp
  next
    case (Inr y)
    obtain a1 ipvt1 where y: "y = (a1, ipvt1)" by (cases y)
    have col: "lu_column n m a ipvt = Inr (a1, ipvt1)" using Inr y by simp
    obtain r where r: "m \<le> r" "r < n" "ipvt1 = ipvt[m := int r]"
      and inv1: "lu_inv (swap_rows B n r m) n (Suc m) a1"
      using lu_inv_step [OF Suc.prems(2) m col] by blast
    have rest: "lu_columns n [Suc m..<n] a1 ipvt1 = (Success, a', ipvt')"
      using Suc.prems(4) up col by simp
    have d: "d = n - Suc m" using Suc.hyps(2) by simp
    have sm: "Suc m \<le> n" using m by simp
    have l1: "length ipvt1 = n" using r(3) Suc.prems(3) by simp
    have ih: "lu_inv (permute_rows (swap_rows B n r m) n ipvt' (Suc m) n) n n a' \<and>
        length ipvt' = n \<and> (\<forall>k<Suc m. ipvt' ! k = ipvt1 ! k) \<and>
        (\<forall>k. Suc m \<le> k \<and> k < n \<longrightarrow> int k \<le> ipvt' ! k \<and> ipvt' ! k < int n)"
      by (rule Suc.hyps(1) [OF d sm inv1 l1 rest])
    have pm: "ipvt' ! m = int r" using ih r(3) m Suc.prems(3) by simp
    have "permute_rows B n ipvt' m n = permute_rows (swap_rows B n r m) n ipvt' (Suc m) n"
      using pm by (simp add: permute_rows_def up)
    moreover have "\<forall>k<m. ipvt' ! k = ipvt ! k" using ih r(3) by simp
    moreover have "\<forall>k. m \<le> k \<and> k < n \<longrightarrow> int k \<le> ipvt' ! k \<and> ipvt' ! k < int n"
    proof (intro allI impI)
      fix k assume k: "m \<le> k \<and> k < n"
      show "int k \<le> ipvt' ! k \<and> ipvt' ! k < int n"
      proof (cases "k = m")
        case True
        then show ?thesis using pm r by simp
      next
        case False
        then show ?thesis using ih k by simp
      qed
    qed
    ultimately show ?thesis using ih by simp
  qed
qed

lemma lu_factor_inv:
  fixes a :: "'a::linordered_field list"
  assumes "length a = n * n" "length ipvt = n" "lu_factor a n ipvt = (- 1, a', ipvt')"
  shows "lu_inv (permute_rows a n ipvt' 0 n) n n a' \<and> length ipvt' = n \<and>
         (\<forall>k<n. int k \<le> ipvt' ! k \<and> ipvt' ! k < int n)"
proof -
  have "lu_factor_exit a n ipvt = (Success, a', ipvt')"
  proof -
    obtain e where e: "lu_factor_exit a n ipvt = (e, a', ipvt')" "ret_code e = - 1"
      using assms(3) by (auto simp: lu_factor_def split: prod.splits)
    have "e = Success" using e(2) by (cases e) simp_all
    then show ?thesis using e(1) by simp
  qed
  then have "lu_columns n [0..<n] a ipvt = (Success, a', ipvt')"
    by (auto simp: lu_factor_exit_def split: option.splits)
  then show ?thesis
    using lu_columns_inv [of 0 n a a ipvt a' ipvt'] lu_inv_init [OF assms(1)] assms(2) by simp
qed

section \<open>Forward and back substitution\<close>

lemma exchange_nth:
  assumes "i < length b" "nat (ipvt ! i) < length b" "k < length b"
  shows "exchange ipvt i b ! k =
         b ! (if k = i then nat (ipvt ! i) else if k = nat (ipvt ! i) then i else k)"
  using assms by (auto simp: exchange_def Let_def nth_list_update)

lemma perm_scan_zeros:
  "perm_scan ipvt n i b = (i0, bi, b1) \<Longrightarrow> i \<le> n \<Longrightarrow> length b = n \<Longrightarrow>
   (\<forall>k<n. int k \<le> ipvt ! k \<and> ipvt ! k < int n) \<Longrightarrow> (\<forall>k<i. b ! k = 0) \<Longrightarrow>
   (i0 = Suc bi \<and> bi < n \<and> (\<forall>k<bi. b1 ! k = 0)) \<or> (i0 = n \<and> bi = 0 \<and> (\<forall>k<n. b1 ! k = 0))"
proof (induction ipvt n i b rule: perm_scan.induct)
  case (1 ipvt n i b)
  show ?case
  proof (cases "i < n")
    case False
    then show ?thesis using "1.prems" by (simp add: perm_scan.simps)
  next
    case True
    define r where "r = nat (ipvt ! i)"
    define b2 where "b2 = exchange ipvt i b"
    have r: "i \<le> r" "r < n" using "1.prems"(4) True by (auto simp: r_def)
    have b2: "b2 = (b[nat (ipvt ! i) := b ! i])[i := b ! nat (ipvt ! i)]"
      by (simp add: b2_def exchange_def Let_def)
    have nth: "b2 ! k = b ! (if k = i then r else if k = r then i else k)" if "k < n" for k
      using exchange_nth [of i b ipvt k] True r that "1.prems"(3) by (simp add: b2_def r_def)
    have low: "\<forall>k<i. b2 ! k = 0" using nth r True "1.prems"(5) by simp
    show ?thesis
    proof (cases "b ! nat (ipvt ! i) \<noteq> 0")
      case nz: True
      then have "perm_scan ipvt n i b = (i + 1, i, b2)"
        using True by (subst perm_scan.simps) (simp add: Let_def b2)
      then show ?thesis using "1.prems"(1) True low by simp
    next
      case z: False
      then have eq: "perm_scan ipvt n i b = perm_scan ipvt n (i + 1) b2"
        using True by (subst perm_scan.simps) (simp add: Let_def b2)
      then have rec: "perm_scan ipvt n (i + 1) b2 = (i0, bi, b1)" using "1.prems"(1) by simp
      have "b2 ! i = 0" using nth [of i] True z by (simp add: r_def)
      then have low': "\<forall>k<i + 1. b2 ! k = 0" using low by (simp add: less_Suc_eq)
      have le: "i + 1 \<le> n" using True by simp
      have l2: "length b2 = n" using "1.prems"(3) by (simp add: b2_def)
      show ?thesis
        using "1.IH" [OF True refl refl refl refl z rec [unfolded b2] le l2 [unfolded b2]
            "1.prems"(4) low' [unfolded b2]]
        by (simp only: b2)
    qed
  qed
qed

lemma forward_solves:
  fixes a :: "'a::comm_ring list"
  assumes lb: "length b = n" and valid: "\<forall>k<n. int k \<le> ipvt ! k \<and> ipvt ! k < int n"
    and ps: "perm_scan ipvt n 0 b = (i0, bi, b1)"
  shows "length (forward_subst a n ipvt bi i0 b1) = n \<and>
         (\<forall>i<n. forward_subst a n ipvt bi i0 b1 ! i +
                  (\<Sum>k<i. a ! (i * n + k) * forward_subst a n ipvt bi i0 b1 ! k)
                = fold (exchange ipvt) [0..<n] b ! i)"
proof -
  define Pm where "Pm = (\<lambda>m. fold (exchange ipvt) [0..<m] b)"
  define Inv where "Inv = (\<lambda>m s. length s = n \<and>
      (\<forall>i. m \<le> i \<and> i < n \<longrightarrow> s ! i = Pm m ! i) \<and>
      (\<forall>i<m. s ! i + (\<Sum>k<i. a ! (i * n + k) * s ! k) = Pm m ! i) \<and>
      (\<forall>k<bi. s ! k = 0))"
  have sp: "b1 = Pm i0" "i0 \<le> n" "i0 = n \<and> bi = 0 \<or> i0 = Suc bi \<and> bi < n"
    using perm_scan_spec [OF ps] by (simp_all add: Pm_def)
  have zs: "(i0 = Suc bi \<and> bi < n \<and> (\<forall>k<bi. b1 ! k = 0)) \<or> (i0 = n \<and> bi = 0 \<and> (\<forall>k<n. b1 ! k = 0))"
    using perm_scan_zeros [OF ps _ lb valid] by simp
  have bi_le: "bi \<le> i0" using sp(3) by auto
  have lP: "length (Pm m) = n" for m by (simp add: Pm_def lb)
  have PS: "Pm (Suc m) = exchange ipvt m (Pm m)" for m by (simp add: Pm_def)
  have init: "Inv i0 b1"
  proof -
    have z: "b1 ! k = 0" if "k < i" "i < i0" for k i using zs that sp(2) by auto
    have "(\<Sum>k<i. a ! (i * n + k) * b1 ! k) = 0" if "i < i0" for i
      by (rule sum.neutral) (use z that in auto)
    moreover have "\<forall>k<bi. b1 ! k = 0" using zs by auto
    ultimately show ?thesis using sp(1) lP by (simp add: Inv_def)
  qed
  have step: "Inv (Suc m) (forward_step a n ipvt bi m s)" if m: "i0 \<le> m" "m < n" and inv: "Inv m s" for m s
  proof -
    define r where "r = nat (ipvt ! m)"
    define e where "e = exchange ipvt m s"
    have r: "m \<le> r" "r < n" using valid m by (auto simp: r_def)
    have ls: "length s = n" using inv by (simp add: Inv_def)
    have up: "s ! i = Pm m ! i" if "m \<le> i" "i < n" for i using inv that by (simp add: Inv_def)
    have lo: "s ! i + (\<Sum>k<i. a ! (i * n + k) * s ! k) = Pm m ! i" if "i < m" for i
      using inv that by (simp add: Inv_def)
    have zz: "s ! k = 0" if "k < bi" for k using inv that by (simp add: Inv_def)
    have bm: "bi \<le> m" using bi_le m by simp
    have en: "e ! k = s ! (if k = m then r else if k = r then m else k)" if "k < n" for k
      using exchange_nth [of m s ipvt k] m r that ls by (simp add: e_def r_def)
    have Pn: "Pm (Suc m) ! k = Pm m ! (if k = m then r else if k = r then m else k)" if "k < n" for k
      using exchange_nth [of m "Pm m" ipvt k] m r that lP by (simp add: PS r_def)
    define v where "v = e ! m - (\<Sum>k = bi..<m. a ! (m * n + k) * e ! k)"
    have fs: "forward_step a n ipvt bi m s = e[m := v]"
      using m ls by (simp add: forward_step_exchange subtract_row_def e_def [symmetric] v_def fold_sub_sum)
    have le: "length e = n" using ls by (simp add: e_def)
    have ek: "e ! k = s ! k" if "k < m" for k using en [of k] that m r by simp
    have s'k: "e[m := v] ! k = s ! k" if "k < m" for k using ek that by simp
    have 1: "\<forall>i. Suc m \<le> i \<and> i < n \<longrightarrow> e[m := v] ! i = Pm (Suc m) ! i"
    proof (intro allI impI)
      fix i assume i: "Suc m \<le> i \<and> i < n"
      then have "e[m := v] ! i = e ! i" by simp
      also have "\<dots> = s ! (if i = r then m else i)" using en [of i] i by simp
      also have "\<dots> = Pm m ! (if i = r then m else i)" using up i m by simp
      also have "\<dots> = Pm (Suc m) ! i" using Pn [of i] i by simp
      finally show "e[m := v] ! i = Pm (Suc m) ! i" .
    qed
    have 2: "e[m := v] ! i + (\<Sum>k<i. a ! (i * n + k) * e[m := v] ! k) = Pm (Suc m) ! i"
      if i: "i < Suc m" for i
    proof (cases "i = m")
      case False
      then have im: "i < m" using i by simp
      have "(\<Sum>k<i. a ! (i * n + k) * e[m := v] ! k) = (\<Sum>k<i. a ! (i * n + k) * s ! k)"
        by (rule sum.cong) (use s'k im in auto)
      moreover have "Pm (Suc m) ! i = Pm m ! i" using Pn [of i] im m r by simp
      ultimately show ?thesis using s'k [OF im] lo [OF im] by simp
    next
      case True
      have a: "(\<Sum>k<m. a ! (m * n + k) * e[m := v] ! k) = (\<Sum>k<m. a ! (m * n + k) * s ! k)"
        by (rule sum.cong) (use s'k in auto)
      have b: "(\<Sum>k = bi..<m. a ! (m * n + k) * e ! k) = (\<Sum>k = bi..<m. a ! (m * n + k) * s ! k)"
        by (rule sum.cong) (use ek in auto)
      have "(\<Sum>k<m. a ! (m * n + k) * s ! k) =
          (\<Sum>k = 0..<bi. a ! (m * n + k) * s ! k) + (\<Sum>k = bi..<m. a ! (m * n + k) * s ! k)"
        using bm by (simp add: lessThan_atLeast0 sum.atLeastLessThan_concat)
      moreover have "(\<Sum>k = 0..<bi. a ! (m * n + k) * s ! k) = 0"
        by (rule sum.neutral) (use zz in auto)
      ultimately have c: "(\<Sum>k<m. a ! (m * n + k) * s ! k) = (\<Sum>k = bi..<m. a ! (m * n + k) * s ! k)"
        by simp
      have "e ! m = Pm (Suc m) ! m" using en [of m] Pn [of m] up [of r] m r by simp
      then show ?thesis using True a b c le m by (simp add: v_def)
    qed
    have 3: "\<forall>k<bi. e[m := v] ! k = 0" using s'k zz bm by simp
    show ?thesis using fs le 1 2 3 by (simp add: Inv_def)
  qed
  have "Inv n (fold (forward_step a n ipvt bi) [i0..<n] b1)"
    by (rule fold_upt_induct [where P = Inv, OF sp(2) init step])
  then show ?thesis by (simp add: Inv_def forward_subst_def Pm_def)
qed

lemma back_solves_from:
  fixes a :: "'a::field list"
  assumes ly: "length y = n" and nz: "\<forall>i<n. a ! (i * n + i) \<noteq> 0"
  shows "m \<le> n \<Longrightarrow>
     length (fold (back_step a n) (rev [m..<n]) y) = n \<and>
     (\<forall>i<m. fold (back_step a n) (rev [m..<n]) y ! i = y ! i) \<and>
     (\<forall>i. m \<le> i \<and> i < n \<longrightarrow>
        (\<Sum>c = i..<n. a ! (i * n + c) * fold (back_step a n) (rev [m..<n]) y ! c) = y ! i)"
proof (induction "n - m" arbitrary: m)
  case 0
  then show ?case using ly by auto
next
  case (Suc d)
  then have m: "m < n" by simp
  define s where "s = fold (back_step a n) (rev [Suc m..<n]) y"
  have ih: "length s = n \<and> (\<forall>i<Suc m. s ! i = y ! i) \<and>
     (\<forall>i. Suc m \<le> i \<and> i < n \<longrightarrow> (\<Sum>c = i..<n. a ! (i * n + c) * s ! c) = y ! i)"
    unfolding s_def using Suc.hyps(1) [of "Suc m"] Suc.hyps(2) m by simp
  define v where "v = (s ! m - (\<Sum>c = m + 1..<n. a ! (m * n + c) * s ! c)) / a ! (m * n + m)"
  have "[m..<n] = m # [Suc m..<n]" using m by (simp add: upt_conv_Cons)
  then have f: "fold (back_step a n) (rev [m..<n]) y = s[m := v]"
    by (simp add: s_def back_step_def Let_def v_def fold_sub_sum)
  have ls: "length s = n" using ih by simp
  have 1: "\<forall>i<m. s[m := v] ! i = y ! i" using ih by simp
  have 2: "(\<Sum>c = i..<n. a ! (i * n + c) * s[m := v] ! c) = y ! i" if i: "m \<le> i \<and> i < n" for i
  proof (cases "i = m")
    case False
    then have im: "Suc m \<le> i" using i by simp
    have "(\<Sum>c = i..<n. a ! (i * n + c) * s[m := v] ! c) = (\<Sum>c = i..<n. a ! (i * n + c) * s ! c)"
      by (rule sum.cong) (use im in auto)
    then show ?thesis using ih im i by simp
  next
    case True
    have "(\<Sum>c = m..<n. a ! (m * n + c) * s[m := v] ! c) =
        a ! (m * n + m) * s[m := v] ! m + (\<Sum>c = Suc m..<n. a ! (m * n + c) * s[m := v] ! c)"
      using m by (simp add: sum.atLeast_Suc_lessThan)
    moreover have "(\<Sum>c = Suc m..<n. a ! (m * n + c) * s[m := v] ! c) =
        (\<Sum>c = Suc m..<n. a ! (m * n + c) * s ! c)"
      by (rule sum.cong) auto
    moreover have "a ! (m * n + m) * s[m := v] ! m = s ! m - (\<Sum>c = Suc m..<n. a ! (m * n + c) * s ! c)"
      using nz m ls by (simp add: v_def)
    moreover have "s ! m = y ! m" using ih by simp
    ultimately show ?thesis using True by simp
  qed
  show ?case using f ls 1 2 by simp
qed

lemma back_solves:
  fixes a :: "'a::field list"
  assumes "length y = n" "\<forall>i<n. a ! (i * n + i) \<noteq> 0"
  shows "length (back_subst a n y) = n \<and>
         (\<forall>i<n. (\<Sum>c = i..<n. a ! (i * n + c) * back_subst a n y ! c) = y ! i)"
  using back_solves_from [OF assms, of 0] by (simp add: back_subst_def)

section \<open>Factor and solve\<close>

lemma sum_if_less:
  fixes f :: "nat \<Rightarrow> 'a::comm_monoid_add"
  assumes "i \<le> n"
  shows "(\<Sum>k<n. if k < i then f k else 0) = (\<Sum>k<i. f k)"
proof -
  have "{k \<in> {..<n}. k < i} = {..<i}" using assms by auto
  then show ?thesis using sum.inter_filter [of "{..<n}" f "\<lambda>k. k < i"] by simp
qed

lemma sum_if_ge:
  fixes f :: "nat \<Rightarrow> 'a::comm_monoid_add"
  shows "(\<Sum>c<n. if k \<le> c then f c else 0) = (\<Sum>c = k..<n. f c)"
proof -
  have "{c \<in> {..<n}. k \<le> c} = {k..<n}" by auto
  then show ?thesis using sum.inter_filter [of "{..<n}" f "\<lambda>c. k \<le> c"] by simp
qed

lemma lu_product:
  fixes a :: "'a::field list"
  assumes inv: "lu_inv B n n a"
    and Ux: "\<forall>i<n. (\<Sum>c = i..<n. a ! (i * n + c) * x c) = y i"
    and Ly: "\<forall>i<n. y i + (\<Sum>k<i. a ! (i * n + k) * y k) = p i"
    and i: "i < n"
  shows "(\<Sum>c<n. B ! (i * n + c) * x c) = p i"
proof -
  define L where "L = (\<lambda>k. if k < i then a ! (i * n + k) else if k = i then 1 else 0)"
  define U where "U = (\<lambda>k c. if k \<le> c then a ! (k * n + c) else 0)"
  have B: "B ! (i * n + c) = (\<Sum>k<n. L k * U k c)" if c: "c < n" for c
  proof (cases "i \<le> c")
    case True
    have "L k * U k c = (if k < i then a ! (i * n + k) * a ! (k * n + c) else 0) +
        (if k = i then a ! (i * n + c) else 0)" for k
      using True by (simp add: L_def U_def)
    then have "(\<Sum>k<n. L k * U k c) =
        (\<Sum>k<i. a ! (i * n + k) * a ! (k * n + c)) + a ! (i * n + c)"
      using i by (simp add: sum.distrib sum_if_less)
    then show ?thesis using inv i c True by (simp add: lu_inv_def)
  next
    case False
    then have ci: "c < i" by simp
    have "L k * U k c = (if k < c then a ! (i * n + k) * a ! (k * n + c) else 0) +
        (if k = c then a ! (i * n + c) * a ! (c * n + c) else 0)" for k
      using ci by (auto simp: L_def U_def)
    then have "(\<Sum>k<n. L k * U k c) =
        (\<Sum>k<c. a ! (i * n + k) * a ! (k * n + c)) + a ! (i * n + c) * a ! (c * n + c)"
      using c by (simp add: sum.distrib sum_if_less)
    then show ?thesis using inv i c ci by (simp add: lu_inv_def)
  qed
  have Uy: "(\<Sum>c<n. U k c * x c) = y k" if "k < n" for k
  proof -
    have "U k c * x c = (if k \<le> c then a ! (k * n + c) * x c else 0)" for c
      by (simp add: U_def)
    then show ?thesis using Ux that by (simp add: sum_if_ge)
  qed
  have "(\<Sum>c<n. B ! (i * n + c) * x c) = (\<Sum>c<n. (\<Sum>k<n. L k * U k c) * x c)"
    by (rule sum.cong) (use B in auto)
  also have "\<dots> = (\<Sum>c<n. \<Sum>k<n. L k * (U k c * x c))"
    by (simp add: sum_distrib_right mult.assoc)
  also have "\<dots> = (\<Sum>k<n. \<Sum>c<n. L k * (U k c * x c))"
    by (rule sum.swap)
  also have "\<dots> = (\<Sum>k<n. L k * (\<Sum>c<n. U k c * x c))"
    by (simp add: sum_distrib_left)
  also have "\<dots> = (\<Sum>k<n. L k * y k)"
    by (rule sum.cong) (use Uy in auto)
  also have "\<dots> = (\<Sum>k<n. (if k < i then a ! (i * n + k) * y k else 0) + (if k = i then y i else 0))"
    by (rule sum.cong) (auto simp: L_def)
  also have "\<dots> = (\<Sum>k<i. a ! (i * n + k) * y k) + y i"
    using i by (simp add: sum.distrib sum_if_less)
  finally show ?thesis using Ly i by (simp add: add.commute)
qed

lemma permute_rows_length:
  assumes "length B = n * n" "\<forall>k<n. int k \<le> ipvt ! k \<and> ipvt ! k < int n" "m \<le> n"
  shows "length (permute_rows B n ipvt 0 m) = n * n"
  using assms(3)
proof (induction m)
  case 0
  then show ?case using assms(1) by (simp add: permute_rows_def)
next
  case (Suc m)
  then have m: "m < n" by simp
  then have "nat (ipvt ! m) < n" using assms(2) by auto
  then show ?case using Suc m by (simp add: permute_rows_def swap_rows_length)
qed

lemma unpermute_system:
  fixes A :: "'a::field list"
  assumes lA: "length A = n * n" and lb: "length b = n"
    and valid: "\<forall>k<n. int k \<le> ipvt ! k \<and> ipvt ! k < int n"
  shows "m \<le> n \<Longrightarrow>
    (\<forall>i<n. (\<Sum>c<n. permute_rows A n ipvt 0 m ! (i * n + c) * x c) = fold (exchange ipvt) [0..<m] b ! i) \<Longrightarrow>
    (\<forall>i<n. (\<Sum>c<n. A ! (i * n + c) * x c) = b ! i)"
proof (induction m)
  case 0
  then show ?case by (simp add: permute_rows_def)
next
  case (Suc m)
  then have m: "m < n" by simp
  define r where "r = nat (ipvt ! m)"
  define Bm where "Bm = permute_rows A n ipvt 0 m"
  define Pm where "Pm = fold (exchange ipvt) [0..<m] b"
  define sg where "sg = (\<lambda>i. if i = m then r else if i = r then m else i)"
  have r: "r < n" using valid m by (auto simp: r_def)
  have lB: "length Bm = n * n"
    unfolding Bm_def by (rule permute_rows_length [OF lA valid]) (use m in simp)
  have lP: "length Pm = n" by (simp add: Pm_def lb)
  have B': "permute_rows A n ipvt 0 (Suc m) = swap_rows Bm n r m"
    by (simp add: permute_rows_def Bm_def r_def)
  have P': "fold (exchange ipvt) [0..<Suc m] b = exchange ipvt m Pm" by (simp add: Pm_def)
  have sg_lt: "sg i < n" if "i < n" for i using that r m by (simp add: sg_def)
  have sg_inv: "sg (sg i) = i" for i by (simp add: sg_def)
  have eB: "swap_rows Bm n r m ! (i * n + c) = Bm ! (sg i * n + c)" if "i < n" "c < n" for i c
    using swap_rows_entries [OF lB r m that] by (simp add: sg_def)
  have eP: "exchange ipvt m Pm ! i = Pm ! sg i" if "i < n" for i
    using exchange_nth [of m Pm ipvt i] that m r lP by (simp add: sg_def r_def)
  have "(\<Sum>c<n. Bm ! (i * n + c) * x c) = Pm ! i" if i: "i < n" for i
  proof -
    have "(\<Sum>c<n. swap_rows Bm n r m ! (sg i * n + c) * x c) = exchange ipvt m Pm ! sg i"
      using Suc.prems(2) sg_lt [OF i] by (simp only: B' P')
    moreover have "(\<Sum>c<n. swap_rows Bm n r m ! (sg i * n + c) * x c) = (\<Sum>c<n. Bm ! (i * n + c) * x c)"
      by (rule sum.cong) (use eB [of "sg i"] sg_lt [OF i] sg_inv in auto)
    ultimately show ?thesis using eP [of "sg i"] sg_lt [OF i] sg_inv by simp
  qed
  then show ?case using Suc.IH m by (simp add: Bm_def Pm_def)
qed

lemma factor_solve:
  fixes a :: "'a::linordered_field list"
  assumes la: "length a = n * n" and li: "length ipvt = n" and lb: "length b = n"
    and f: "lu_factor a n ipvt = (- 1, a', ipvt')"
  shows "length (lu_solve a' n ipvt' b) = n \<and>
         (\<forall>i<n. (\<Sum>c<n. a ! (i * n + c) * lu_solve a' n ipvt' b ! c) = b ! i)"
proof -
  have inv: "lu_inv (permute_rows a n ipvt' 0 n) n n a'"
    and valid: "\<forall>k<n. int k \<le> ipvt' ! k \<and> ipvt' ! k < int n"
    using lu_factor_inv [OF la li f] by simp_all
  obtain i0 bi b1 where ps: "perm_scan ipvt' n 0 b = (i0, bi, b1)"
    by (cases "perm_scan ipvt' n 0 b")
  define y where "y = forward_subst a' n ipvt' bi i0 b1"
  define x where "x = back_subst a' n y"
  have xs: "lu_solve a' n ipvt' b = x" by (simp add: lu_solve_def ps x_def y_def)
  have fw: "length y = n"
    "\<forall>i<n. y ! i + (\<Sum>k<i. a' ! (i * n + k) * y ! k) = fold (exchange ipvt') [0..<n] b ! i"
    using forward_solves [OF lb valid ps, of a'] by (simp_all add: y_def)
  have nz: "\<forall>i<n. a' ! (i * n + i) \<noteq> 0" using inv by (simp add: lu_inv_def)
  have bk: "length x = n" "\<forall>i<n. (\<Sum>c = i..<n. a' ! (i * n + c) * x ! c) = y ! i"
    using back_solves [OF fw(1) nz] by (simp_all add: x_def)
  have "\<forall>i<n. (\<Sum>c<n. permute_rows a n ipvt' 0 n ! (i * n + c) * x ! c)
      = fold (exchange ipvt') [0..<n] b ! i"
    using lu_product [OF inv bk(2) fw(2)] by simp
  then have "\<forall>i<n. (\<Sum>c<n. a ! (i * n + c) * x ! c) = b ! i"
    using unpermute_system [OF la lb valid, of n "\<lambda>c. x ! c"] by simp
  then show ?thesis using bk(1) xs by simp
qed

text \<open>
  C1, as the code has it. On doubles a return of -1 does not make the result of
  \<open>lu_solve\<close> a solution, not even approximately. The matrix with the two identical rows
  \<open>(49, 1)\<close> is singular, yet \<open>lu_factor\<close> returns -1 (the multiplier \<open>49 * (1 / 49)\<close>
  rounds to \<open>1 - 2\<^sup>-\<^sup>5\<^sup>3\<close>). For the right-hand side \<open>b = (1, 2)\<close>, \<open>lu_solve\<close> then gives
  \<open>x = (5882252574524729 / 32, -9007199254740990)\<close>, and both rows of \<open>A \<cdot> x\<close> are
  \<open>41 / 32\<close>, which is neither \<open>1\<close> nor \<open>2\<close>.
\<close>

theorem success_without_solution:
  "lu_factor (map Fin [49, 1, 49, 1]) 2 [0, 0]
     = (- 1, [Fin 49, Fin 1, Fin (9007199254740991 / 9007199254740992),
              Fin (1 / 9007199254740992)], [1, 1]) \<and>
   lu_solve [Fin 49, Fin 1, Fin (9007199254740991 / 9007199254740992),
             Fin (1 / 9007199254740992)] 2 [1, 1] [Fin 1, Fin 2]
     = [Fin (5882252574524729 / 32), Fin (- 9007199254740990)] \<and>
   (\<Sum>c<2. [49, 1, 49, 1] ! (0 * 2 + c) * [5882252574524729 / 32, - 9007199254740990] ! c)
     = (41 / 32 :: rat) \<and>
   (\<Sum>c<2. [49, 1, 49, 1] ! (1 * 2 + c) * [5882252574524729 / 32, - 9007199254740990] ! c)
     = (41 / 32 :: rat)"
proof -
  have f: "lu_factor (map Fin [49, 1, 49, 1]) 2 [0, 0]
     = (- 1, [Fin 49, Fin 1, Fin (9007199254740991 / 9007199254740992),
              Fin (1 / 9007199254740992)], [1, 1])"
    by code_simp
  have s: "lu_solve [Fin 49, Fin 1, Fin (9007199254740991 / 9007199254740992),
             Fin (1 / 9007199254740992)] 2 [1, 1] [Fin 1, Fin 2]
     = [Fin (5882252574524729 / 32), Fin (- 9007199254740990)]"
    by code_simp
  have two: "{..<2::nat} = {0, 1}" by auto
  have r0: "(\<Sum>c<2. [49, 1, 49, 1] ! (0 * 2 + c) *
               [5882252574524729 / 32, - 9007199254740990] ! c) = (41 / 32 :: rat)"
    by (simp add: two)
  have r1: "(\<Sum>c<2. [49, 1, 49, 1] ! (1 * 2 + c) *
               [5882252574524729 / 32, - 9007199254740990] ! c) = (41 / 32 :: rat)"
    by (simp add: two)
  show ?thesis using f s r0 r1 by (simp only: simp_thms)
qed

text \<open>
  C1, amended. With exact arithmetic: when \<open>lu_factor\<close> returns -1 on an \<open>n \<times> n\<close> matrix
  \<open>A\<close>, \<open>lu_solve\<close> on the factored matrix and the produced pivot vector turns any
  right-hand side \<open>b\<close> of length \<open>n\<close> into a vector \<open>x\<close> of length \<open>n\<close> with \<open>A \<cdot> x = b\<close>, row
  by row.
\<close>

theorem factor_then_solve_correct:
  fixes a :: "'a::linordered_field list"
  assumes "length a = n * n" "length ipvt = n" "length b = n"
    "lu_factor a n ipvt = (- 1, a', ipvt')"
  shows "length (lu_solve a' n ipvt' b) = n \<and>
         (\<forall>i<n. (\<Sum>c<n. a ! (i * n + c) * lu_solve a' n ipvt' b ! c) = b ! i)"
  using assms by (rule factor_solve)

theorem factor_then_solve_correct_witness:
  "lu_factor [4, 3, 6, 3 :: rat] 2 [0, 0] = (- 1, [6, 3, 2 / 3, 1], [1, 1]) \<and>
   lu_solve [6, 3, 2 / 3, 1 :: rat] 2 [1, 1] [1, 1] = [0, 1 / 3] \<and>
   length (lu_solve [6, 3, 2 / 3, 1 :: rat] 2 [1, 1] [1, 1]) = 2 \<and>
   (\<Sum>c<2. [4, 3, 6, 3 :: rat] ! (0 * 2 + c) * lu_solve [6, 3, 2 / 3, 1] 2 [1, 1] [1, 1] ! c) = [1, 1] ! 0 \<and>
   (\<Sum>c<2. [4, 3, 6, 3 :: rat] ! (1 * 2 + c) * lu_solve [6, 3, 2 / 3, 1] 2 [1, 1] [1, 1] ! c) = [1, 1] ! 1"
proof -
  have f: "lu_factor [4, 3, 6, 3 :: rat] 2 [0, 0] = (- 1, [6, 3, 2 / 3, 1], [1, 1])"
    by code_simp
  have s: "lu_solve [6, 3, 2 / 3, 1 :: rat] 2 [1, 1] [1, 1] = [0, 1 / 3]"
    by code_simp
  have l: "length [4, 3, 6, 3 :: rat] = 2 * 2" "length [0, 0 :: int] = 2" "length [1, 1 :: rat] = 2"
    by simp_all
  note t = factor_then_solve_correct [OF l f]
  have r0: "(\<Sum>c<2. [4, 3, 6, 3 :: rat] ! (0 * 2 + c) * lu_solve [6, 3, 2 / 3, 1] 2 [1, 1] [1, 1] ! c) = [1, 1] ! 0"
    using t [THEN conjunct2, rule_format, of 0] by simp
  have r1: "(\<Sum>c<2. [4, 3, 6, 3 :: rat] ! (1 * 2 + c) * lu_solve [6, 3, 2 / 3, 1] 2 [1, 1] [1, 1] ! c) = [1, 1] ! 1"
    using t [THEN conjunct2, rule_format, of 1] by simp
  show ?thesis using f s t r0 r1 by blast
qed

section \<open>Singular matrices\<close>

lemma singular_not_success:
  fixes a :: "'a::linordered_field list"
  assumes la: "length a = n * n" and li: "length ipvt = n" and sg: "singular a n"
  shows "fst (lu_factor a n ipvt) \<noteq> - 1"
proof
  assume "fst (lu_factor a n ipvt) = - 1"
  then obtain a' ipvt' where f: "lu_factor a n ipvt = (- 1, a', ipvt')"
    by (cases "lu_factor a n ipvt") auto
  obtain y where y: "length y = n" "\<exists>i<n. y ! i \<noteq> 0"
    "\<forall>c<n. (\<Sum>i<n. y ! i * a ! (i * n + c)) = 0"
    using sg by (auto simp: singular_def)
  define x where "x = lu_solve a' n ipvt' y"
  have ax: "\<forall>i<n. (\<Sum>c<n. a ! (i * n + c) * x ! c) = y ! i"
    using factor_solve [OF la li y(1) f] by (simp add: x_def)
  have "(\<Sum>i<n. y ! i * y ! i) = (\<Sum>i<n. y ! i * (\<Sum>c<n. a ! (i * n + c) * x ! c))"
    by (rule sum.cong) (use ax in auto)
  also have "\<dots> = (\<Sum>i<n. \<Sum>c<n. x ! c * (y ! i * a ! (i * n + c)))"
    by (simp add: sum_distrib_left mult_ac)
  also have "\<dots> = (\<Sum>c<n. \<Sum>i<n. x ! c * (y ! i * a ! (i * n + c)))"
    by (rule sum.swap)
  also have "\<dots> = (\<Sum>c<n. x ! c * (\<Sum>i<n. y ! i * a ! (i * n + c)))"
    by (simp add: sum_distrib_left)
  also have "\<dots> = 0"
    by (rule sum.neutral) (use y(3) in auto)
  finally have "(\<Sum>i<n. y ! i * y ! i) = 0" .
  then have "\<forall>i\<in>{..<n}. y ! i * y ! i = 0"
    by (subst (asm) sum_nonneg_eq_0_iff) auto
  then show False using y(2) by auto
qed

lemma lu_columns_split:
  "lu_columns n js a ipvt = (e, a', ipvt') \<Longrightarrow> e \<noteq> Success \<Longrightarrow>
   \<exists>pre j post aj ipvtj. js = pre @ j # post \<and>
      lu_columns n pre a ipvt = (Success, aj, ipvtj) \<and>
      lu_column n j aj ipvtj = Inl (e, a', ipvt')"
proof (induction js arbitrary: a ipvt)
  case Nil
  then show ?case by simp
next
  case (Cons j js)
  show ?case
  proof (cases "lu_column n j a ipvt")
    case (Inl x)
    then have "x = (e, a', ipvt')" using Cons.prems(1) by simp
    then have "j # js = [] @ j # js \<and> lu_columns n [] a ipvt = (Success, a, ipvt) \<and>
        lu_column n j a ipvt = Inl (e, a', ipvt')"
      using Inl by simp
    then show ?thesis by blast
  next
    case (Inr y)
    obtain a1 ipvt1 where y: "y = (a1, ipvt1)" by (cases y)
    have "lu_columns n js a1 ipvt1 = (e, a', ipvt')" using Cons.prems(1) Inr y by simp
    then obtain pre k post aj ipvtj where p: "js = pre @ k # post"
      "lu_columns n pre a1 ipvt1 = (Success, aj, ipvtj)"
      "lu_column n k aj ipvtj = Inl (e, a', ipvt')"
      using Cons.IH Cons.prems(2) by blast
    have "j # js = (j # pre) @ k # post \<and> lu_columns n (j # pre) a ipvt = (Success, aj, ipvtj) \<and>
        lu_column n k aj ipvtj = Inl (e, a', ipvt')"
      using p Inr y by simp
    then show ?thesis by blast
  qed
qed

lemma upt_split:
  assumes "[0..<n] = pre @ j # post"
  shows "j < n \<and> pre = [0..<j]"
proof -
  have l: "length pre < n" using arg_cong [OF assms, of length] by simp
  have "[0..<n] ! length pre = j" using assms by simp
  then have j: "j = length pre" using l by simp
  have "take j [0..<n] = pre" using assms j by simp
  then have "pre = [0..<j]" using l j by (simp add: take_upt)
  then show ?thesis using l j by simp
qed

lemma lu_columns_length:
  "\<forall>j\<in>set js. j < n \<Longrightarrow> length a = n * n \<Longrightarrow>
   lu_columns n js a ipvt = (Success, a', ipvt') \<Longrightarrow> length a' = n * n"
proof (induction js arbitrary: a ipvt)
  case Nil
  then show ?case by simp
next
  case (Cons j js)
  have j: "j < n" using Cons.prems(1) by simp
  show ?case
  proof (cases "lu_column n j a ipvt")
    case (Inl x)
    obtain e rest where x: "x = (e, rest)" by (cases x)
    have "e \<noteq> Success" using lu_column_Inl_not_Success Inl x by blast
    then show ?thesis using Cons.prems(3) Inl x by simp
  next
    case (Inr y)
    obtain a1 ipvt1 where y: "y = (a1, ipvt1)" by (cases y)
    have "length a1 = n * n"
      using lu_column_Inr_entries [OF Cons.prems(2) j Inr [unfolded y]] by blast
    then show ?thesis using Cons.IH [of a1 ipvt1] Cons.prems(1,3) Inr y by simp
  qed
qed

lemma lu_column_failure:
  fixes a :: "'a::linordered_field list"
  assumes la: "length a = n * n" and j: "j < n"
    and col: "lu_column n j a ipvt = Inl (e, r)"
  shows "e = Zero_Diagonal j \<and> (\<forall>i\<in>{j..<n}. cand (upper_part a n j) n j i = 0)"
proof -
  obtain a2 lg lr where lp: "lower_part (upper_part a n j) n j = (a2, lg, lr)"
    by (cases "lower_part (upper_part a n j) n j")
  have l1: "length (upper_part a n j) = n * n" by (rule upper_part_length [OF la j])
  have l2: "length a2 = n * n" using lower_part_length [OF l1 j] lp by simp
  have ps: "int j \<le> lr \<and> lr < int n \<and>
         (\<forall>i. j \<le> i \<and> i < n \<longrightarrow> a2 ! (i * n + j) =
            reduce (upper_part a n j) n i j j (upper_part a n j ! (i * n + j))) \<and>
         lg = abs (a2 ! (nat lr * n + j)) \<and>
         (\<forall>i. j \<le> i \<and> i < n \<longrightarrow> abs (a2 ! (i * n + j)) \<le> lg) \<and>
         (\<forall>i. nat lr < i \<and> i < n \<longrightarrow> abs (a2 ! (i * n + j)) < lg)"
    by (rule pivot_search_spec [OF l1 j lp])
  then have r: "nat lr < n" "lr \<noteq> - 1" by auto
  have u: "lu_column n j a ipvt =
     (if swap_rows a2 n (nat lr) j ! (j * n + j) = 0
      then Inl (Zero_Diagonal j, swap_rows a2 n (nat lr) j, ipvt[j := lr])
      else Inr (scale_column (swap_rows a2 n (nat lr) j) n j, ipvt[j := lr]))"
    using lu_column_unfold [OF la j lp] r(2) by (simp add: Let_def)
  then have z: "swap_rows a2 n (nat lr) j ! (j * n + j) = 0" and e: "e = Zero_Diagonal j"
    using col by (auto split: if_splits)
  have "a2 ! (nat lr * n + j) = 0"
    using z swap_rows_entries [OF l2 r(1) j j j] by simp
  then have "lg = 0" using ps by simp
  then have "\<forall>i. j \<le> i \<and> i < n \<longrightarrow> a2 ! (i * n + j) = 0" using ps by auto
  then have "\<forall>i\<in>{j..<n}. cand (upper_part a n j) n j i = 0"
    using ps by (simp add: cand_def)
  then show ?thesis using e by simp
qed

text \<open>
  C4, as the code has it. The matrix with the two identical rows \<open>(49, 1)\<close> is singular
  and has no all-zero row, yet on doubles \<open>lu_factor\<close> returns -1: the multiplier
  \<open>49 * (1 / 49)\<close> rounds to \<open>1 - 2\<^sup>-\<^sup>5\<^sup>3\<close>, not to 1, so the reduced diagonal entry of
  column 1 is \<open>2\<^sup>-\<^sup>5\<^sup>3\<close> and passes the zero-diagonal check.
\<close>

theorem singular_factorizes_on_doubles:
  "singular [49, 1, 49, 1 :: rat] 2 \<and>
   \<not> row_all_zeros (map Fin [49, 1, 49, 1]) 2 0 \<and>
   \<not> row_all_zeros (map Fin [49, 1, 49, 1]) 2 1 \<and>
   lu_factor (map Fin [49, 1, 49, 1]) 2 [0, 0]
     = (- 1, [Fin 49, Fin 1, Fin (9007199254740991 / 9007199254740992),
              Fin (1 / 9007199254740992)], [1, 1])"
proof -
  have "length [1, - 1 :: rat] = 2 \<and> (\<exists>i<2. [1, - 1 :: rat] ! i \<noteq> 0) \<and>
      (\<forall>c<2. (\<Sum>i<2. [1, - 1 :: rat] ! i * [49, 1, 49, 1] ! (i * 2 + c)) = 0)"
    by (auto simp: less_Suc_eq numeral_2_eq_2)
  then have s: "singular [49, 1, 49, 1 :: rat] 2" unfolding singular_def by blast
  have r: "\<not> row_all_zeros (map Fin [49, 1, 49, 1]) 2 0"
    "\<not> row_all_zeros (map Fin [49, 1, 49, 1]) 2 1"
    by code_simp+
  have f: "lu_factor (map Fin [49, 1, 49, 1]) 2 [0, 0]
     = (- 1, [Fin 49, Fin 1, Fin (9007199254740991 / 9007199254740992),
              Fin (1 / 9007199254740992)], [1, 1])"
    by code_simp
  show ?thesis using s r f by blast
qed

text \<open>
  C4, amended. When arithmetic is exact: for a singular matrix (linearly dependent rows)
  without an all-zero row, \<open>lu_factor\<close> does not return -1 but the index \<open>j\<close> of the first
  column in which no nonzero pivot is found: the columns before \<open>j\<close> complete, and in
  column \<open>j\<close> every candidate row has the post-reduction value zero.
\<close>

theorem singular_reports_column:
  fixes a :: "'a::linordered_field list"
  assumes "length a = n * n" "length ipvt = n" "singular a n"
    "\<forall>i<n. \<exists>c<n. a ! (i * n + c) \<noteq> 0"
  shows "\<exists>j<n. fst (lu_factor a n ipvt) = int j \<and> first_pivotless_column a n ipvt j"
proof -
  have none: "find (row_all_zeros a n) [0..<n] = None"
    unfolding find_None_iff row_all_zeros_def list_all_iff using assms(4) by fastforce
  obtain e a' ipvt' where run: "lu_columns n [0..<n] a ipvt = (e, a', ipvt')"
    by (cases "lu_columns n [0..<n] a ipvt")
  have f: "lu_factor a n ipvt = (ret_code e, a', ipvt')"
    by (simp add: lu_factor_def lu_factor_exit_def none run)
  have "fst (lu_factor a n ipvt) \<noteq> - 1" by (rule singular_not_success [OF assms(1,2,3)])
  then have ne: "e \<noteq> Success" using f by auto
  obtain pre j post aj ipvtj where sp: "[0..<n] = pre @ j # post"
    "lu_columns n pre a ipvt = (Success, aj, ipvtj)"
    "lu_column n j aj ipvtj = Inl (e, a', ipvt')"
    using lu_columns_split [OF run ne] by blast
  have j: "j < n" and pre: "pre = [0..<j]" using upt_split [OF sp(1)] by simp_all
  have laj: "length aj = n * n"
    by (rule lu_columns_length [OF _ assms(1) sp(2)]) (use pre j in simp)
  have fail: "e = Zero_Diagonal j \<and> (\<forall>i\<in>{j..<n}. cand (upper_part aj n j) n j i = 0)"
    by (rule lu_column_failure [OF laj j sp(3)])
  have "first_pivotless_column a n ipvt j"
    using sp(2) pre fail by (simp add: first_pivotless_column_def)
  moreover have "fst (lu_factor a n ipvt) = int j" using f fail by simp
  ultimately show ?thesis using j by blast
qed

theorem singular_reports_column_witness:
  "singular [1, 2, 1, 2 :: rat] 2 \<and>
   lu_factor [1, 2, 1, 2 :: rat] 2 [0, 0] = (1, [1, 2, 1, 0], [1, 1]) \<and>
   first_pivotless_column [1, 2, 1, 2 :: rat] 2 [0, 0] 1"
proof -
  have "length [1, - 1 :: rat] = 2 \<and> (\<exists>i<2. [1, - 1 :: rat] ! i \<noteq> 0) \<and>
      (\<forall>c<2. (\<Sum>i<2. [1, - 1 :: rat] ! i * [1, 2, 1, 2] ! (i * 2 + c)) = 0)"
    by (auto simp: less_Suc_eq numeral_2_eq_2)
  then have s: "singular [1, 2, 1, 2 :: rat] 2" unfolding singular_def by blast
  have nz: "\<forall>i<2. \<exists>c<2. [1, 2, 1, 2 :: rat] ! (i * 2 + c) \<noteq> 0"
    by (auto simp: less_Suc_eq numeral_2_eq_2)
  have f: "lu_factor [1, 2, 1, 2 :: rat] 2 [0, 0] = (1, [1, 2, 1, 0], [1, 1])"
    by code_simp
  obtain j where j: "j < 2" "fst (lu_factor [1, 2, 1, 2 :: rat] 2 [0, 0]) = int j"
    "first_pivotless_column [1, 2, 1, 2 :: rat] 2 [0, 0] j"
    using singular_reports_column [of "[1, 2, 1, 2 :: rat]" 2 "[0, 0]", OF _ _ s nz] by auto
  have "j = 1" using j(2) f by simp
  then show ?thesis using s f j(3) by simp
qed

section \<open>The return without a pivot candidate\<close>

lemma search_step:
  fixes a' :: "'a::{zero,abs,ord} list"
  assumes i: "j \<le> i" "i < n" and j: "j < n" and inv: "search_inv n j i (a', lg, lr)"
  shows "search_inv n j (Suc i)
           (if lg \<le> abs q then (a'[i * n + j := q], abs q, int i)
            else (a'[i * n + j := q], lg, lr))"
proof (cases "lg \<le> abs q")
  case True
  then show ?thesis using inv i by (simp add: search_inv_def)
next
  case False
  have la: "length a' = n * n" using inv by (simp add: search_inv_def)
  have rng: "lr = - 1 \<or> (int j \<le> lr \<and> lr < int (Suc i))"
    using inv by (auto simp: search_inv_def)
  have none: "\<forall>r. j \<le> r \<and> r < Suc i \<longrightarrow> \<not> 0 \<le> abs (a'[i * n + j := q] ! (r * n + j))"
    if m1: "lr = - 1"
  proof (intro allI impI)
    fix r assume r: "j \<le> r \<and> r < Suc i"
    have lg: "lg = 0" and old: "\<forall>r. j \<le> r \<and> r < i \<longrightarrow> \<not> 0 \<le> abs (a' ! (r * n + j))"
      using inv m1 by (simp_all add: search_inv_def)
    have rn: "r < n" using r i by simp
    have e: "a'[i * n + j := q] ! (r * n + j) = (if i = r then q else a' ! (r * n + j))"
      using nth_upd_idx [OF i(2) j j la, of q r] by simp
    show "\<not> 0 \<le> abs (a'[i * n + j := q] ! (r * n + j))"
    proof (cases "r = i")
      case True
      then show ?thesis using e False lg by simp
    next
      case False
      then have "r < i" using r by simp
      then show ?thesis using e old r False by simp
    qed
  qed
  have lg0: "lr = - 1 \<Longrightarrow> lg = 0" using inv by (simp add: search_inv_def)
  show ?thesis using False la rng none lg0 by (simp add: search_inv_def)
qed

lemma lower_part_search:
  fixes a :: "'a::{zero,minus,times,abs,ord} list"
  assumes len: "length a = n * n" and j: "j < n"
  shows "search_inv n j n (lower_part a n j)"
  unfolding lower_part_def
proof (rule fold_upt_induct [where P = "search_inv n j"])
  show "search_inv n j j (a, 0, - 1)" using len by (auto simp: search_inv_def)
next
  fix i s assume i: "j \<le> i" "i < n" and inv: "search_inv n j i (s :: 'a list \<times> 'a \<times> int)"
  obtain a' lg lr where s: "s = (a', lg, lr)" by (cases s)
  define q where "q = reduce a' n i j j (a' ! (i * n + j))"
  have step: "lower_step n j i s =
      (if lg \<le> abs q then (a'[i * n + j := q], abs q, int i) else (a'[i * n + j := q], lg, lr))"
    by (simp add: lower_step_def s Let_def q_def)
  show "search_inv n j (Suc i) (lower_step n j i s)"
    unfolding step by (rule search_step [OF i j inv [unfolded s]])
qed (use j in simp)

lemma lower_part_simd_search:
  fixes a :: "'a::{zero,plus,minus,times,abs,ord} list"
  assumes len: "length a = n * n" and j: "j < n"
  shows "search_inv n j n (lower_part_simd a n j)"
  unfolding lower_part_simd_def
proof (rule fold_upt_induct [where P = "search_inv n j"])
  show "search_inv n j j (a, 0, - 1)" using len by (auto simp: search_inv_def)
next
  fix i s assume i: "j \<le> i" "i < n" and inv: "search_inv n j i (s :: 'a list \<times> 'a \<times> int)"
  obtain a' lg lr where s: "s = (a', lg, lr)" by (cases s)
  define q where "q = reduce_simd a' n i j (a' ! (i * n + j))"
  have step: "lower_step_simd n j i s =
      (if lg \<le> abs q then (a'[i * n + j := q], abs q, int i) else (a'[i * n + j := q], lg, lr))"
    by (simp add: lower_step_simd_def s Let_def q_def)
  show "search_inv n j (Suc i) (lower_step_simd n j i s)"
    unfolding step by (rule search_step [OF i j inv [unfolded s]])
qed (use j in simp)

lemma after_pivot_exit:
  assumes "length a3 = n * n" "j < n"
  shows "case after_pivot n j a3 lr ipvt of
           Inl (e, r) \<Rightarrow> e = Zero_Diagonal j
         | Inr (a', ipvt') \<Rightarrow> length a' = n * n"
  using assms scale_column_length [OF assms]
  by (simp add: after_pivot_def Let_def)

lemma lu_column_exit:
  fixes a :: "'a::{zero,one,minus,times,inverse,abs,ord} list"
  assumes len: "length a = n * n" and j: "j < n"
  shows "case lu_column n j a ipvt of
           Inl (e, a', ipvt') \<Rightarrow>
             e = Zero_Diagonal j \<or>
             e = No_Candidate j \<and> (\<forall>i. j \<le> i \<and> i < n \<longrightarrow> \<not> 0 \<le> abs (a' ! (i * n + j)))
         | Inr (a', ipvt') \<Rightarrow> length a' = n * n"
proof -
  obtain a2 lg lr where lp: "lower_part (upper_part a n j) n j = (a2, lg, lr)"
    by (cases "lower_part (upper_part a n j) n j")
  have inv: "search_inv n j n (a2, lg, lr)"
    using lower_part_search [OF upper_part_length [OF len j] j] lp by simp
  have l2: "length a2 = n * n" using inv by (simp add: search_inv_def)
  show ?thesis
  proof (cases "lr = - 1")
    case True
    then have "\<forall>i. j \<le> i \<and> i < n \<longrightarrow> \<not> 0 \<le> abs (a2 ! (i * n + j))"
      using inv by (simp add: search_inv_def)
    then show ?thesis using True by (simp add: lu_column_def lp)
  next
    case False
    then have r: "int j \<le> lr" "lr < int n" using inv by (auto simp: search_inv_def)
    then have rn: "nat lr < n" by simp
    have l3: "length (swap_rows a2 n (nat lr) j) = n * n"
      by (rule swap_rows_length [OF l2 rn j])
    have 1: "case after_pivot n j (swap_rows a2 n (nat lr) j) lr ipvt of
           Inl (e, r) \<Rightarrow> e = Zero_Diagonal j
         | Inr (a', ipvt') \<Rightarrow> length a' = n * n"
      by (rule after_pivot_exit [OF l3 j])
    have 2: "case after_pivot n j a2 lr ipvt of
           Inl (e, r) \<Rightarrow> e = Zero_Diagonal j
         | Inr (a', ipvt') \<Rightarrow> length a' = n * n"
      by (rule after_pivot_exit [OF l2 j])
    show ?thesis using False 1 2
      by (auto simp: lu_column_def lp split: sum.splits)
  qed
qed

lemma lu_column_simd_exit:
  fixes a :: "'a::{zero,one,plus,minus,times,inverse,abs,ord} list"
  assumes len: "length a = n * n" and j: "j < n"
  shows "case lu_column_simd n j a ipvt of
           Inl (e, a', ipvt') \<Rightarrow>
             e = Zero_Diagonal j \<or>
             e = No_Candidate j \<and> (\<forall>i. j \<le> i \<and> i < n \<longrightarrow> \<not> 0 \<le> abs (a' ! (i * n + j)))
         | Inr (a', ipvt') \<Rightarrow> length a' = n * n"
proof -
  obtain a2 lg lr where lp: "lower_part_simd (upper_part_simd a n j) n j = (a2, lg, lr)"
    by (cases "lower_part_simd (upper_part_simd a n j) n j")
  have u: "upper_part_simd a n j = upper_part a n j" by (rule upper_part_simd_eq)
  have inv: "search_inv n j n (a2, lg, lr)"
    using lower_part_simd_search [OF upper_part_length [OF len j] j] lp by (simp add: u)
  have l2: "length a2 = n * n" using inv by (simp add: search_inv_def)
  show ?thesis
  proof (cases "lr = - 1")
    case True
    then have "\<forall>i. j \<le> i \<and> i < n \<longrightarrow> \<not> 0 \<le> abs (a2 ! (i * n + j))"
      using inv by (simp add: search_inv_def)
    then show ?thesis using True by (simp add: lu_column_simd_def lp)
  next
    case False
    then have r: "int j \<le> lr" "lr < int n" using inv by (auto simp: search_inv_def)
    then have rn: "nat lr < n" by simp
    have 2: "case after_pivot n j a2 lr ipvt of
           Inl (e, r) \<Rightarrow> e = Zero_Diagonal j
         | Inr (a', ipvt') \<Rightarrow> length a' = n * n"
      by (rule after_pivot_exit [OF l2 j])
    show ?thesis
    proof (cases "int j = lr")
      case True
      then show ?thesis using 2 by (auto simp: lu_column_simd_def lp split: sum.splits)
    next
      case ne: False
      then have nj: "nat lr \<noteq> j" using r by auto
      define a3 where "a3 = swap_rows_simd a2 (nat lr * n) (j * n) n"
      have a3: "a3 = swap_rows a2 n (nat lr) j"
        unfolding a3_def by (rule swap_rows_simd_eq [OF l2 rn j nj])
      have l3: "length a3 = n * n" using swap_rows_length [OF l2 rn j] a3 by simp
      have 1: "case after_pivot n j a3 lr ipvt of
           Inl (e, r) \<Rightarrow> e = Zero_Diagonal j
         | Inr (a', ipvt') \<Rightarrow> length a' = n * n"
        by (rule after_pivot_exit [OF l3 j])
      show ?thesis using False ne 1
        by (auto simp: lu_column_simd_def lp a3_def split: sum.splits)
    qed
  qed
qed

lemma lu_columns_no_candidate:
  fixes a :: "'a::{zero,one,minus,times,inverse,abs,ord} list"
  shows "\<forall>j\<in>set js. j < n \<Longrightarrow> length a = n * n \<Longrightarrow>
    lu_columns n js a ipvt = (No_Candidate k, a', ipvt') \<Longrightarrow>
    k < n \<and> (\<forall>i. k \<le> i \<and> i < n \<longrightarrow> \<not> 0 \<le> abs (a' ! (i * n + k)))"
proof (induction js arbitrary: a ipvt)
  case Nil
  then show ?case by simp
next
  case (Cons j js)
  have j: "j < n" using Cons.prems(1) by simp
  have c: "case lu_column n j a ipvt of
           Inl (e, a', ipvt') \<Rightarrow>
             e = Zero_Diagonal j \<or>
             e = No_Candidate j \<and> (\<forall>i. j \<le> i \<and> i < n \<longrightarrow> \<not> 0 \<le> abs (a' ! (i * n + j)))
         | Inr (a', ipvt') \<Rightarrow> length a' = n * n"
    by (rule lu_column_exit [OF Cons.prems(2) j])
  show ?case
  proof (cases "lu_column n j a ipvt")
    case (Inl x)
    then have "x = (No_Candidate k, a', ipvt')" using Cons.prems(3) by simp
    then show ?thesis using c Inl j by auto
  next
    case (Inr y)
    obtain a1 ipvt1 where y: "y = (a1, ipvt1)" by (cases y)
    have l1: "length a1 = n * n" using c Inr y by simp
    have "lu_columns n js a1 ipvt1 = (No_Candidate k, a', ipvt')"
      using Cons.prems(3) Inr y by simp
    then show ?thesis using Cons.IH [OF _ l1] Cons.prems(1) by simp
  qed
qed

lemma lu_columns_simd_no_candidate:
  fixes a :: "'a::{zero,one,plus,minus,times,inverse,abs,ord} list"
  shows "\<forall>j\<in>set js. j < n \<Longrightarrow> length a = n * n \<Longrightarrow>
    lu_columns_simd n js a ipvt = (No_Candidate k, a', ipvt') \<Longrightarrow>
    k < n \<and> (\<forall>i. k \<le> i \<and> i < n \<longrightarrow> \<not> 0 \<le> abs (a' ! (i * n + k)))"
proof (induction js arbitrary: a ipvt)
  case Nil
  then show ?case by simp
next
  case (Cons j js)
  have j: "j < n" using Cons.prems(1) by simp
  have c: "case lu_column_simd n j a ipvt of
           Inl (e, a', ipvt') \<Rightarrow>
             e = Zero_Diagonal j \<or>
             e = No_Candidate j \<and> (\<forall>i. j \<le> i \<and> i < n \<longrightarrow> \<not> 0 \<le> abs (a' ! (i * n + j)))
         | Inr (a', ipvt') \<Rightarrow> length a' = n * n"
    by (rule lu_column_simd_exit [OF Cons.prems(2) j])
  show ?case
  proof (cases "lu_column_simd n j a ipvt")
    case (Inl x)
    then have "x = (No_Candidate k, a', ipvt')" using Cons.prems(3) by simp
    then show ?thesis using c Inl j by auto
  next
    case (Inr y)
    obtain a1 ipvt1 where y: "y = (a1, ipvt1)" by (cases y)
    have l1: "length a1 = n * n" using c Inr y by simp
    have "lu_columns_simd n js a1 ipvt1 = (No_Candidate k, a', ipvt')"
      using Cons.prems(3) Inr y by simp
    then show ?thesis using Cons.IH [OF _ l1] Cons.prems(1) by simp
  qed
qed

lemma lu_factor_exit_no_candidate:
  fixes a :: "'a::{zero,one,minus,times,inverse,abs,ord} list"
  assumes "length a = n * n" "lu_factor_exit a n ipvt = (No_Candidate k, a', ipvt')"
  shows "k < n \<and> (\<forall>i. k \<le> i \<and> i < n \<longrightarrow> \<not> 0 \<le> abs (a' ! (i * n + k)))"
proof -
  have "lu_columns n [0..<n] a ipvt = (No_Candidate k, a', ipvt')"
    using assms(2) by (auto simp: lu_factor_exit_def split: option.splits)
  moreover have "\<forall>j\<in>set [0..<n]. j < n" by simp
  ultimately show ?thesis using assms(1) by (rule lu_columns_no_candidate [rotated 2])
qed

lemma lu_factor_exit_simd_no_candidate:
  fixes a :: "'a::{zero,one,plus,minus,times,inverse,abs,ord} list"
  assumes "length a = n * n" "lu_factor_exit_simd a n ipvt = (No_Candidate k, a', ipvt')"
  shows "k < n \<and> (\<forall>i. k \<le> i \<and> i < n \<longrightarrow> \<not> 0 \<le> abs (a' ! (i * n + k)))"
proof -
  have "lu_columns_simd n [0..<n] a ipvt = (No_Candidate k, a', ipvt')"
    using assms(2) by (auto simp: lu_factor_exit_simd_def split: option.splits)
  moreover have "\<forall>j\<in>set [0..<n]. j < n" by simp
  ultimately show ?thesis using assms(1) by (rule lu_columns_simd_no_candidate [rotated 2])
qed

lemma not_zero_le_abs_double: "\<not> 0 \<le> abs (q :: double_val) \<longleftrightarrow> q = NaN"
  by (cases q) (simp_all add: less_eq_double_val_def abs_double_val_def zero_double_val_def)

text \<open>
  When arithmetic is exact there is no NaN, and the return is unreachable in both
  builds: \<open>0 \<le> |q|\<close> holds for the first candidate of every column.
\<close>

lemma no_candidate_exact:
  fixes a :: "'a::linordered_field list"
  assumes "length a = n * n"
  shows "fst (lu_factor_exit a n ipvt) \<noteq> No_Candidate k \<and>
         fst (lu_factor_exit_simd a n ipvt) \<noteq> No_Candidate k"
proof -
  have "False" if "lu_factor_exit a n ipvt = (No_Candidate k, a', ipvt')" for a' ipvt'
    using lu_factor_exit_no_candidate [OF assms that] by auto
  moreover have "False" if "lu_factor_exit_simd a n ipvt = (No_Candidate k, a', ipvt')"
    for a' ipvt'
    using lu_factor_exit_simd_no_candidate [OF assms that] by auto
  ultimately show ?thesis
    by (metis prod.collapse)
qed

text \<open>
  C10, as the code has it. A matrix without NaN can reach the \<open>largestRow == -1\<close> return,
  in both builds, because NaN arises during the factorization. With infinite entries the
  scaling of column 0 produces \<open>\<infinity> * (1 / \<infinity>) = \<infinity> * 0 = NaN\<close>. With finite entries the
  same happens by overflow: in the nonsingular matrix with the rows \<open>(2\<^sup>-\<^sup>1\<^sup>0\<^sup>7\<^sup>0, 1)\<close> and
  \<open>(0, 1)\<close> the multiplier \<open>1.0 / 2\<^sup>-\<^sup>1\<^sup>0\<^sup>7\<^sup>0\<close> overflows to \<open>\<infinity>\<close> and \<open>0 * \<infinity>\<close> is NaN. In
  column 1 the only candidate is then NaN, the comparison \<open>x >= largest\<close> never succeeds,
  and the function returns 1 from the \<open>largestRow == -1\<close> branch.
\<close>

theorem no_candidate_reachable:
  "NaN \<notin> set [PInf, PInf, PInf, PInf] \<and>
   lu_factor_exit [PInf, PInf, PInf, PInf] 2 [0, 0]
     = (No_Candidate 1, [PInf, PInf, NaN, NaN], [1, 0]) \<and>
   lu_factor [PInf, PInf, PInf, PInf] 2 [0, 0] = (1, [PInf, PInf, NaN, NaN], [1, 0]) \<and>
   lu_factor_exit_simd [PInf, PInf, PInf, PInf] 2 [0, 0]
     = (No_Candidate 1, [PInf, PInf, NaN, NaN], [1, 0]) \<and>
   inverse (Fin (pow2 (- 1070))) = PInf \<and>
   lu_factor_exit (map Fin [pow2 (- 1070), 1, 0, 1]) 2 [0, 0]
     = (No_Candidate 1, [Fin (pow2 (- 1070)), Fin 1, NaN, NaN], [0, 0]) \<and>
   lu_factor_exit_simd (map Fin [pow2 (- 1070), 1, 0, 1]) 2 [0, 0]
     = (No_Candidate 1, [Fin (pow2 (- 1070)), Fin 1, NaN, NaN], [0, 0])"
  by code_simp

text \<open>
  C10, amended. In both builds the \<open>largestRow == -1\<close> return of \<open>lu_factor\<close> is reached
  at column \<open>k\<close> only when the post-reduction value of every candidate row \<open>i\<close> in \<open>[k, n)\<close>
  is NaN: the lower-part loop runs at least once (\<open>k < n\<close>), \<open>largest\<close> is \<open>0.0\<close> until a
  candidate registers, and \<open>fabs(q) >= 0.0\<close> fails for NaN only. The buffer returned holds
  these values in column \<open>k\<close>. Whether the input contains NaN does not decide it: infinite
  entries and overflow produce NaN on the way.
\<close>

theorem no_candidate_only_nan:
  fixes a :: "double_val list"
  assumes "length a = n * n"
  shows "(lu_factor_exit a n ipvt = (No_Candidate k, a', ipvt') \<longrightarrow>
            k < n \<and> (\<forall>i. k \<le> i \<and> i < n \<longrightarrow> a' ! (i * n + k) = NaN)) \<and>
         (lu_factor_exit_simd a n ipvt = (No_Candidate k, a', ipvt') \<longrightarrow>
            k < n \<and> (\<forall>i. k \<le> i \<and> i < n \<longrightarrow> a' ! (i * n + k) = NaN))"
  using lu_factor_exit_no_candidate [OF assms, of ipvt k a' ipvt']
    lu_factor_exit_simd_no_candidate [OF assms, of ipvt k a' ipvt']
  by (simp add: not_zero_le_abs_double)

theorem no_candidate_only_nan_witness:
  "length [PInf, PInf, PInf, PInf] = 2 * 2 \<and>
   lu_factor_exit [PInf, PInf, PInf, PInf] 2 [0, 0]
     = (No_Candidate 1, [PInf, PInf, NaN, NaN], [1, 0]) \<and>
   lu_factor_exit_simd [PInf, PInf, PInf, PInf] 2 [0, 0]
     = (No_Candidate 1, [PInf, PInf, NaN, NaN], [1, 0]) \<and>
   (1::nat) < 2 \<and> [PInf, PInf, NaN, NaN] ! (1 * 2 + 1) = NaN"
proof -
  have l: "length [PInf, PInf, PInf, PInf] = 2 * 2" by simp
  have e: "lu_factor_exit [PInf, PInf, PInf, PInf] 2 [0, 0]
     = (No_Candidate 1, [PInf, PInf, NaN, NaN], [1, 0])" by code_simp
  have s: "lu_factor_exit_simd [PInf, PInf, PInf, PInf] 2 [0, 0]
     = (No_Candidate 1, [PInf, PInf, NaN, NaN], [1, 0])" by code_simp
  have "\<forall>i. 1 \<le> i \<and> i < 2 \<longrightarrow> [PInf, PInf, NaN, NaN] ! (i * 2 + 1) = NaN"
    using no_candidate_only_nan [OF l, of "[0, 0]" 1 "[PInf, PInf, NaN, NaN]" "[1, 0]"] e
    by blast
  then have "[PInf, PInf, NaN, NaN] ! (1 * 2 + 1) = NaN" by simp
  then show ?thesis using l e s by simp
qed

end
